theory Spec2Isabelle
  imports Complex_Main "HOL-Library.Sublist" "HOL-Library.Log_Nat"
begin

section \<open>Strings\<close>

text \<open>
  Strings are lists of 8-bit characters. Only the ASCII letters have case, and the word
  characters of a regular expression (\<^verbatim>\<open>\w\<close>) are the ASCII letters, the digits and the
  underscore, as in a JavaScript regular expression without the \<^verbatim>\<open>u\<close> flag.
\<close>

definition case_pairs :: "(char \<times> char) list" where
  "case_pairs = zip ''ABCDEFGHIJKLMNOPQRSTUVWXYZ'' ''abcdefghijklmnopqrstuvwxyz''"

definition lower_char :: "char \<Rightarrow> char" where
  "lower_char c = (case map_of case_pairs c of Some d \<Rightarrow> d | None \<Rightarrow> c)"

definition toLowerCase :: "string \<Rightarrow> string" where
  "toLowerCase s = map lower_char s"

definition is_word_char :: "char \<Rightarrow> bool" where
  "is_word_char c \<longleftrightarrow>
     c \<in> set ''abcdefghijklmnopqrstuvwxyzABCDEFGHIJKLMNOPQRSTUVWXYZ0123456789_''"

definition str_includes :: "string \<Rightarrow> string \<Rightarrow> bool" where
  "str_includes s sub \<longleftrightarrow> sublist sub s"

text \<open>
  A word boundary \<^verbatim>\<open>\b\<close> lies between two positions of which exactly one holds a word
  character; the start and the end of the string count as non-word.
\<close>

definition is_word_opt :: "char option \<Rightarrow> bool" where
  "is_word_opt p = (case p of None \<Rightarrow> False | Some c \<Rightarrow> is_word_char c)"

definition word_boundary :: "char option \<Rightarrow> char option \<Rightarrow> bool" where
  "word_boundary before after \<longleftrightarrow> is_word_opt before \<noteq> is_word_opt after"

definition next_char :: "string \<Rightarrow> char option" where
  "next_char s = (case s of [] \<Rightarrow> None | c # _ \<Rightarrow> Some c)"

text \<open>
  \<^verbatim>\<open>listPattern\<close> is the regular expression \<^verbatim>\<open>/\b(which|who|list|show)\b/i\<close>;
  \<^verbatim>\<open>listPattern.test\<close> tries every start position from left to right, and at each
  position the boundary, the four alternatives and the closing boundary.
\<close>

definition list_words :: "string list" where
  "list_words = [''which'', ''who'', ''list'', ''show'']"

definition alt_at :: "string \<Rightarrow> string \<Rightarrow> bool" where
  "alt_at w rest \<longleftrightarrow>
     toLowerCase (take (length w) rest) = w \<and>
     word_boundary (Some (last w)) (next_char (drop (length w) rest))"

definition listPattern_at :: "char option \<Rightarrow> string \<Rightarrow> bool" where
  "listPattern_at before rest \<longleftrightarrow>
     word_boundary before (next_char rest) \<and> list_ex (\<lambda>w. alt_at w rest) list_words"

fun listPattern_scan :: "char option \<Rightarrow> string \<Rightarrow> bool" where
  "listPattern_scan before [] = listPattern_at before []"
| "listPattern_scan before (c # cs) =
     (listPattern_at before (c # cs) \<or> listPattern_scan (Some c) cs)"

definition listPattern_test :: "string \<Rightarrow> bool" where
  "listPattern_test s = listPattern_scan None s"

section \<open>Numbers\<close>

text \<open>
  A JavaScript number is an IEEE-754 double. The numbers of the similarity engine are
  non-negative and far from the overflow and underflow thresholds, so a number is modelled
  as the rational it denotes, and every arithmetic operation returns the exact result
  rounded to the nearest double: 53 significant bits, ties to the even significand.
  \<open>expo x\<close> is the binary exponent of a positive \<open>x\<close>, the integer \<open>e\<close> with
  \<open>2\<^sup>e \<le> x < 2\<^sup>e\<^sup>+\<^sup>1\<close>.
\<close>

definition pow2 :: "int \<Rightarrow> rat" where
  "pow2 e = (if 0 \<le> e then 2 ^ nat e else 1 / 2 ^ nat (- e))"

definition expo :: "rat \<Rightarrow> int" where
  "expo x =
     (let e0 = bitlen (fst (quotient_of x)) - bitlen (snd (quotient_of x))
      in if pow2 e0 \<le> x then e0 else e0 - 1)"

definition round_half_even :: "rat \<Rightarrow> int" where
  "round_half_even m =
     (let f = \<lfloor>m\<rfloor>; d = m - of_int f
      in if d < 1 / 2 then f else if d > 1 / 2 then f + 1 else if even f then f else f + 1)"

definition fl :: "rat \<Rightarrow> rat" where
  "fl x =
     (if x = 0 then 0
      else let e = expo \<bar>x\<bar> - 52
           in sgn x * of_int (round_half_even (\<bar>x\<bar> / pow2 e)) * pow2 e)"

definition js_add :: "rat \<Rightarrow> rat \<Rightarrow> rat" where
  "js_add a b = fl (a + b)"

definition js_mul :: "rat \<Rightarrow> rat \<Rightarrow> rat" where
  "js_mul a b = fl (a * b)"

text \<open>Division by a non-zero number (the only division of the program is guarded).\<close>

definition js_div :: "rat \<Rightarrow> rat \<Rightarrow> rat" where
  "js_div a b = fl (a / b)"

text \<open>
  The integer square root, bit by bit from the top: \<open>isqrt_bits k n r\<close> decides the \<open>k\<close>
  low bits of the root whose higher bits are \<open>r\<close>.
\<close>

fun isqrt_bits :: "nat \<Rightarrow> int \<Rightarrow> int \<Rightarrow> int" where
  "isqrt_bits 0 n r = r"
| "isqrt_bits (Suc k) n r =
     isqrt_bits k n (if (r + 2 ^ k) * (r + 2 ^ k) \<le> n then r + 2 ^ k else r)"

definition isqrt :: "int \<Rightarrow> int" where
  "isqrt n = isqrt_bits (nat (bitlen n)) n 0"

text \<open>
  \<^verbatim>\<open>Math.sqrt\<close> of a positive number: the double nearest to the square root. With
  \<open>h = expo x div 2\<close> the root lies in \<open>[2\<^sup>h, 2\<^sup>h\<^sup>+\<^sup>1)\<close>, so its significand is the integer
  nearest to the root of \<open>y = x / 4\<^sup>h\<^sup>-\<^sup>5\<^sup>2\<close>; \<open>s\<close> is the floor of that root, and the root
  exceeds \<open>s + 1/2\<close> exactly when \<open>y > s\<^sup>2 + s + 1/4\<close>.
\<close>

definition js_sqrt :: "rat \<Rightarrow> rat" where
  "js_sqrt x =
     (if x \<le> 0 then 0
      else let h = expo x div 2;
               y = x / pow2 (2 * (h - 52));
               s = isqrt \<lfloor>y\<rfloor>;
               c = of_int (s * s + s) + 1 / 4;
               m = (if y < c then s else if y > c then s + 1 else if even s then s else s + 1)
           in of_int m * pow2 (h - 52))"

section \<open>Decision router: the deterministic brain\<close>

record BrainDecision =
  action :: string
  mode :: "string option"
  prompt :: "string option"

definition decide :: "string \<Rightarrow> BrainDecision" where
  "decide p =
    (let lowerPrompt = toLowerCase p in
     if str_includes lowerPrompt ''engagement'' \<or> str_includes lowerPrompt ''pulse''
        \<or> str_includes lowerPrompt ''checkin''
     then (let m = (if listPattern_test p then ''list'' else ''summary'')
           in \<lparr>action = ''USE:engagement_pulse:'' @ m, mode = Some m, prompt = Some p\<rparr>)
     else if str_includes lowerPrompt ''dormant'' \<or> str_includes lowerPrompt ''inactive''
     then (if str_includes lowerPrompt ''tip'' \<or> str_includes lowerPrompt ''advice''
           then \<lparr>action = ''USE:mentor_tips'', mode = None, prompt = None\<rparr>
           else (let m = (if listPattern_test p then ''list'' else ''summary'')
                 in \<lparr>action = ''USE:engagement_pulse:'' @ m, mode = Some m, prompt = Some p\<rparr>))
     else if str_includes lowerPrompt ''one sided'' \<or> str_includes lowerPrompt ''one-sided''
        \<or> str_includes lowerPrompt ''imbalance''
     then \<lparr>action = ''USE:mentor_tips'', mode = None, prompt = None\<rparr>
     else if str_includes lowerPrompt ''tip'' \<or> str_includes lowerPrompt ''advice''
        \<or> str_includes lowerPrompt ''suggestion''
     then \<lparr>action = ''USE:mentor_tips'', mode = None, prompt = None\<rparr>
     else if str_includes lowerPrompt ''echo''
     then \<lparr>action = ''USE:echo'', mode = None, prompt = None\<rparr>
     else if str_includes lowerPrompt ''debug''
     then \<lparr>action = ''RESPOND:Debug mode - all systems operational'', mode = None, prompt = None\<rparr>
     else \<lparr>action = ''RESPOND:I understand you're asking about \"'' @ p @ ''\". Let me help with that.'',
            mode = None, prompt = None\<rparr>)"

section \<open>Data model\<close>

text \<open>
  The records that the data-access layer returns. A check-in's \<open>ci_timestamp\<close> is the time
  value in milliseconds that \<^verbatim>\<open>new Date(checkin.timestamp).getTime()\<close> gives for the
  timestamp text (a text that does not parse as a date is outside the model); \<open>now\<close> is
  the time value of \<^verbatim>\<open>new Date()\<close>. Field names that several interfaces share carry a
  prefix.
\<close>

record CheckIn =
  ci_pair_id :: string
  ci_timestamp :: int
  mentee_score :: int
  mentor_score :: int
  ci_notes :: string

record Message =
  msg_pair_id :: string
  msg_timestamp :: string
  author_role :: string
  channel :: string
  msg_text :: string

record User =
  user_id :: string
  role :: string
  email :: string
  timezone :: string
  first_name :: string
  joined_at :: string

record Pairing =
  pair_id :: string
  mentor_id :: string
  mentee_id :: string
  programme_id :: string
  started_at :: string

record Programme =
  prog_programme_id :: string
  prog_name :: string
  cadence_days :: int
  success_markers :: "string list"

record Tip =
  tip_id :: string
  situation :: string
  tip_text :: string

text \<open>
  Each load either throws (\<open>Inl\<close> the message of the error) or returns the records in file
  order.
\<close>

record DataFiles =
  loadCheckins :: "string + CheckIn list"
  loadMessages :: "string + Message list"
  loadUsers :: "string + User list"
  loadPairings :: "string + Pairing list"
  loadProgrammes :: "string + Programme list"
  loadTips :: "string + Tip list"

section \<open>Similarity engine: vectorisation\<close>

definition stopWords :: "string list" where
  "stopWords =
     [''a'', ''an'', ''and'', ''are'', ''as'', ''at'', ''be'', ''by'', ''for'', ''from'',
      ''has'', ''he'', ''in'', ''is'', ''it'', ''its'', ''of'', ''on'', ''that'', ''the'',
      ''to'', ''was'', ''will'', ''with'', ''the'', ''this'', ''your'', ''you'', ''our'']"

definition is_stop :: "string \<Rightarrow> bool" where
  "is_stop w \<longleftrightarrow> w \<in> set stopWords"

text \<open>
  The whitespace class \<^verbatim>\<open>\s\<close>, which is also what \<^verbatim>\<open>trim\<close> strips: space, tab, line
  feed, vertical tab, form feed, return and the no-break space \<^verbatim>\<open>U+00A0\<close> (the other
  white space of Unicode lies beyond the 8-bit characters).
\<close>

definition is_space_char :: "char \<Rightarrow> bool" where
  "is_space_char c \<longleftrightarrow>
     c \<in> set [CHR '' '', CHR 0x09, CHR 0x0A, CHR 0x0B, CHR 0x0C, CHR 0x0D, CHR 0xA0]"

text \<open>
  \<^verbatim>\<open>s.split(/[sep]+/)\<close>: the pieces between maximal runs of separators. A string that
  starts or ends with a separator yields an empty first or last piece, and the empty string
  yields one empty piece. \<open>cur\<close> is the piece being read and \<open>in_sep\<close> tells whether the
  previous character was a separator.
\<close>

fun split_acc :: "(char \<Rightarrow> bool) \<Rightarrow> string \<Rightarrow> bool \<Rightarrow> string \<Rightarrow> string list" where
  "split_acc sep cur in_sep [] = [cur]"
| "split_acc sep cur in_sep (c # cs) =
     (if sep c then (if in_sep then split_acc sep [] True cs else cur # split_acc sep [] True cs)
      else split_acc sep (cur @ [c]) False cs)"

definition split_runs :: "(char \<Rightarrow> bool) \<Rightarrow> string \<Rightarrow> string list" where
  "split_runs sep s = split_acc sep [] False s"

text \<open>\<^verbatim>\<open>text.toLowerCase().replace(/[^\w\s]/g, ' ')\<close>\<close>

definition cleanText :: "string \<Rightarrow> string" where
  "cleanText t =
     map (\<lambda>c. if is_word_char c \<or> is_space_char c then c else CHR '' '') (toLowerCase t)"

definition words_of :: "string \<Rightarrow> string list" where
  "words_of t = filter (\<lambda>w. length w > 0) (split_runs is_space_char (cleanText t))"

text \<open>
  A feature vector is a \<^verbatim>\<open>Map<string, number>\<close>: keys are unique and keep their insertion
  order, so it is an association list; \<^verbatim>\<open>set\<close> on a present key overwrites in place.
\<close>

type_synonym fvec = "(string \<times> nat) list"

fun map_set :: "('k \<times> 'v) list \<Rightarrow> 'k \<Rightarrow> 'v \<Rightarrow> ('k \<times> 'v) list" where
  "map_set [] k n = [(k, n)]"
| "map_set ((k', n') # r) k n = (if k' = k then (k, n) # r else (k', n') # map_set r k n)"

text \<open>\<^verbatim>\<open>vec.get(k) || 0\<close>\<close>

definition vget0 :: "fvec \<Rightarrow> string \<Rightarrow> nat" where
  "vget0 v k = (case map_of v k of None \<Rightarrow> 0 | Some n \<Rightarrow> n)"

definition bump :: "fvec \<Rightarrow> string \<Rightarrow> fvec" where
  "bump v k = map_set v k (vget0 v k + 1)"

definition add_unigram :: "string \<Rightarrow> fvec \<Rightarrow> fvec" where
  "add_unigram w v = (if length w > 2 \<and> \<not> is_stop w then bump v w else v)"

fun add_bigrams :: "string list \<Rightarrow> fvec \<Rightarrow> fvec" where
  "add_bigrams (a # b # r) v =
     add_bigrams (b # r) (if \<not> is_stop a \<and> \<not> is_stop b then bump v (a @ ''_'' @ b) else v)"
| "add_bigrams r v = v"

definition vectorise :: "string \<Rightarrow> fvec" where
  "vectorise t = (let ws = words_of t in add_bigrams ws (fold add_unigram ws []))"

section \<open>Engagement analytics\<close>

record EngagementOptions =
  opt_mode :: "string option"
  opt_limit :: "int option"
  opt_prompt :: "string option"

record MenteeEntry =
  entry_mentee_id :: string
  entry_first_name :: string
  entry_pair_id :: string
  entry_last_checkin_days :: int

datatype EngagementResult =
    SummaryResult (sample: nat) (dormant: nat) (overall_balance: string) (last_checkin_days: int)
  | ListResult (dormant_count: nat) (mentees: "MenteeEntry list")
  | ErrorResult (message: string) (hint: string)

record PairStat =
  lastCheckin :: int
  balance :: string
  daysSince :: int

type_synonym pairStats = "(string \<times> PairStat) list"

definition ms_per_day :: int where
  "ms_per_day = 1000 * 60 * 60 * 24"

text \<open>One step of \<^verbatim>\<open>checkins.forEach\<close>; \<^verbatim>\<open>Math.floor\<close> of the quotient is \<open>div\<close> on \<open>int\<close>.\<close>

definition note_checkin :: "int \<Rightarrow> CheckIn \<Rightarrow> pairStats \<Rightarrow> pairStats" where
  "note_checkin now c stats =
     (if (case map_of stats (ci_pair_id c) of
            None \<Rightarrow> True
          | Some s \<Rightarrow> ci_timestamp c > lastCheckin s)
      then map_set stats (ci_pair_id c)
             \<lparr>lastCheckin = ci_timestamp c, balance = ''balanced'',
              daysSince = (now - ci_timestamp c) div ms_per_day\<rparr>
      else stats)"

definition analyse_checkins :: "int \<Rightarrow> CheckIn list \<Rightarrow> pairStats" where
  "analyse_checkins now cs = fold (note_checkin now) cs []"

definition group_message :: "Message \<Rightarrow> (string \<times> Message list) list \<Rightarrow> (string \<times> Message list) list" where
  "group_message m pm =
     map_set pm (msg_pair_id m)
       ((case map_of pm (msg_pair_id m) of None \<Rightarrow> [] | Some ms \<Rightarrow> ms) @ [m])"

text \<open>\<^verbatim>\<open>xs.slice(-n)\<close>: the last \<open>n\<close> elements.\<close>

definition slice_last :: "nat \<Rightarrow> 'a list \<Rightarrow> 'a list" where
  "slice_last n xs = drop (length xs - n) xs"

definition classify_balance :: "Message list \<Rightarrow> string" where
  "classify_balance msgs =
     (let recentMessages = slice_last 50 msgs;
          mentorCount = length (filter (\<lambda>m. author_role m = ''mentor'') recentMessages);
          menteeCount = length (filter (\<lambda>m. author_role m = ''mentee'') recentMessages)
      in if (of_nat mentorCount :: rat) > of_nat menteeCount * 1.5 then ''mentor_heavy''
         else if (of_nat menteeCount :: rat) > of_nat mentorCount * 1.5 then ''mentee_heavy''
         else ''balanced'')"

definition note_balance :: "string \<times> Message list \<Rightarrow> pairStats \<Rightarrow> pairStats" where
  "note_balance e stats =
     (case map_of stats (fst e) of
        None \<Rightarrow> stats
      | Some s \<Rightarrow> map_set stats (fst e) (s\<lparr>balance := classify_balance (snd e)\<rparr>))"

definition analyse_messages :: "Message list \<Rightarrow> pairStats \<Rightarrow> pairStats" where
  "analyse_messages ms stats = fold note_balance (fold group_message ms []) stats"

definition dormantPairs :: "pairStats \<Rightarrow> (string \<times> int) list" where
  "dormantPairs stats =
     map (\<lambda>(p, s). (p, daysSince s)) (filter (\<lambda>(p, s). daysSince s > 14) stats)"

text \<open>\<^verbatim>\<open>xs.slice(0, n)\<close>: a negative \<open>n\<close> counts from the end.\<close>

definition slice_to :: "int \<Rightarrow> 'a list \<Rightarrow> 'a list" where
  "slice_to n xs = take (nat (if n < 0 then int (length xs) + n else n)) xs"

definition mentee_entry :: "User list \<Rightarrow> Pairing list \<Rightarrow> string \<times> int \<Rightarrow> MenteeEntry" where
  "mentee_entry users pairings e =
     (case find (\<lambda>p. pair_id p = fst e) pairings of
        None \<Rightarrow>
          \<lparr>entry_mentee_id = ''unknown'', entry_first_name = ''Unknown'',
           entry_pair_id = fst e, entry_last_checkin_days = snd e\<rparr>
      | Some pairing \<Rightarrow>
          \<lparr>entry_mentee_id = mentee_id pairing,
           entry_first_name =
             (case find (\<lambda>u. user_id u = mentee_id pairing) users of
                None \<Rightarrow> ''Unknown''
              | Some mentee \<Rightarrow> if first_name mentee = [] then ''Unknown'' else first_name mentee),
           entry_pair_id = fst e, entry_last_checkin_days = snd e\<rparr>)"

definition maxDays :: "pairStats \<Rightarrow> int" where
  "maxDays stats = fold (\<lambda>e m. if daysSince (snd e) > m then daysSince (snd e) else m) stats 0"

definition overallBalance :: "pairStats \<Rightarrow> string" where
  "overallBalance stats =
     (let balances = map (\<lambda>e. balance (snd e)) stats
      in if (of_nat (length (filter (\<lambda>b. b = ''mentor_heavy'') balances)) :: rat)
              > of_nat (length balances) / 2 then ''mentor_heavy''
         else if (of_nat (length (filter (\<lambda>b. b = ''mentee_heavy'') balances)) :: rat)
              > of_nat (length balances) / 2 then ''mentee_heavy''
         else ''balanced'')"

definition pulse_hint :: string where
  "pulse_hint = ''Check that data files exist and are properly formatted''"

text \<open>
  \<^verbatim>\<open>EngagementPulse.run\<close>. The four loads run first, in the order checkins, messages,
  users, pairings; the first that throws ends the call in the \<^verbatim>\<open>catch\<close> block.
  \<^verbatim>\<open>options.mode || 'summary'\<close> and \<^verbatim>\<open>options.limit || 5\<close> replace an absent or empty mode
  and an absent or zero limit. The sort of the dormant pairs is stable.
\<close>

definition run :: "DataFiles \<Rightarrow> int \<Rightarrow> EngagementOptions \<Rightarrow> EngagementResult" where
  "run files now options =
     (let mode = (case opt_mode options of None \<Rightarrow> ''summary''
                  | Some m \<Rightarrow> if m = [] then ''summary'' else m);
          limit = (case opt_limit options of None \<Rightarrow> 5 | Some l \<Rightarrow> if l = 0 then 5 else l)
      in case loadCheckins files of Inl e \<Rightarrow> ErrorResult e pulse_hint | Inr checkins \<Rightarrow>
         case loadMessages files of Inl e \<Rightarrow> ErrorResult e pulse_hint | Inr messages \<Rightarrow>
         case loadUsers files of Inl e \<Rightarrow> ErrorResult e pulse_hint | Inr users \<Rightarrow>
         case loadPairings files of Inl e \<Rightarrow> ErrorResult e pulse_hint | Inr pairings \<Rightarrow>
         (let pairStats = analyse_messages messages (analyse_checkins now checkins);
              dormant = dormantPairs pairStats
          in if mode = ''list''
             then ListResult (length dormant)
                    (map (mentee_entry users pairings)
                       (slice_to limit (sort_key (\<lambda>e. - snd e) dormant)))
             else SummaryResult (length pairStats) (length dormant)
                    (overallBalance pairStats) (maxDays pairStats)))"

section \<open>Similarity engine: cosine similarity and ranking\<close>

text \<open>
  \<^verbatim>\<open>new Set([...vec1.keys(), ...vec2.keys()])\<close>: the keys in the order of their first
  insertion.
\<close>

definition js_set_of :: "'a list \<Rightarrow> 'a list" where
  "js_set_of ks = fold (\<lambda>k acc. if k \<in> set acc then acc else acc @ [k]) ks []"

definition allWords :: "fvec \<Rightarrow> fvec \<Rightarrow> string list" where
  "allWords vec1 vec2 = js_set_of (map fst vec1 @ map fst vec2)"

text \<open>
  One step of \<^verbatim>\<open>allWords.forEach\<close> on the triple (dotProduct, norm1, norm2). A count is a
  number of the map; it is taken as the rational \<open>of_nat\<close> of the count.
\<close>

definition sim_step :: "fvec \<Rightarrow> fvec \<Rightarrow> string \<Rightarrow> rat \<times> rat \<times> rat \<Rightarrow> rat \<times> rat \<times> rat" where
  "sim_step vec1 vec2 word acc =
     (let v1 = of_nat (vget0 vec1 word); v2 = of_nat (vget0 vec2 word)
      in (js_add (fst acc) (js_mul v1 v2),
          js_add (fst (snd acc)) (js_mul v1 v1),
          js_add (snd (snd acc)) (js_mul v2 v2)))"

definition cosineSimilarity :: "fvec \<Rightarrow> fvec \<Rightarrow> rat" where
  "cosineSimilarity vec1 vec2 =
     (let acc = fold (sim_step vec1 vec2) (allWords vec1 vec2) (0, 0, 0);
          dotProduct = fst acc; norm1 = fst (snd acc); norm2 = snd (snd acc)
      in if norm1 = 0 \<or> norm2 = 0 then 0
         else js_div dotProduct (js_mul (js_sqrt norm1) (js_sqrt norm2)))"

record Document =
  doc_id :: string
  doc_text :: string
  doc_tags :: "string list option"

record Scored =
  sc_id :: string
  score :: rat
  sc_text :: string
  sc_tags :: "string list option"

definition score_doc :: "fvec \<Rightarrow> Document \<Rightarrow> Scored" where
  "score_doc queryVector doc =
     \<lparr>sc_id = doc_id doc, score = cosineSimilarity queryVector (vectorise (doc_text doc)),
      sc_text = doc_text doc, sc_tags = doc_tags doc\<rparr>"

text \<open>
  \<^verbatim>\<open>scores.sort((a, b) => b.score - a.score)\<close> is a stable sort by descending score
  (the sign of the rounded difference of two doubles is the sign of the exact difference),
  and \<^verbatim>\<open>slice(0, topK)\<close> truncates; \<open>topK\<close> is an integer.
\<close>

definition findSimilar :: "string \<Rightarrow> Document list \<Rightarrow> int \<Rightarrow> Scored list" where
  "findSimilar query documents topK =
     (let queryVector = vectorise query;
          scores = map (score_doc queryVector) documents
      in slice_to topK (sort_key (\<lambda>s. - score s) scores))"

section \<open>Tip retrieval\<close>

record Hit =
  hit_id :: string
  hit_score :: rat
  hit_text :: string
  hit_tags :: "string list"

datatype TipsOutcome =
    TipsResult (hits: "Hit list")
  | TipsError (tips_message: string) (tips_hint: string)

text \<open>
  \<^verbatim>\<open>parseFloat(x.toFixed(2))\<close> for a non-negative \<open>x\<close>: \<^verbatim>\<open>toFixed\<close> picks the integer \<open>n\<close>
  with \<open>n / 100\<close> nearest to \<open>x\<close> (the larger one of two), and \<^verbatim>\<open>parseFloat\<close> reads the
  decimal back as the nearest double.
\<close>

definition toFixed2 :: "rat \<Rightarrow> rat" where
  "toFixed2 x = fl (of_int \<lfloor>x * 100 + 1 / 2\<rfloor> / 100)"

definition tip_document :: "Tip \<Rightarrow> Document" where
  "tip_document tip =
     \<lparr>doc_id = tip_id tip, doc_text = situation tip @ '' '' @ tip_text tip,
      doc_tags = Some (filter (\<lambda>t. length t > 0)
        (split_runs (\<lambda>c. c = CHR '','' \<or> c = CHR ''_'' \<or> is_space_char c) (situation tip)))\<rparr>"

text \<open>
  One result mapped to a hit; \<^verbatim>\<open>tips.find(...)!.text\<close> throws a TypeError (\<open>None\<close>) when
  no tip has the id.
\<close>

definition to_hit :: "Tip list \<Rightarrow> Scored \<Rightarrow> Hit option" where
  "to_hit tips r =
     (case find (\<lambda>t. tip_id t = sc_id r) tips of
        None \<Rightarrow> None
      | Some tip \<Rightarrow>
          Some \<lparr>hit_id = sc_id r, hit_score = toFixed2 (score r), hit_text = tip_text tip,
                hit_tags = (case sc_tags r of None \<Rightarrow> [] | Some ts \<Rightarrow> ts)\<rparr>)"

definition tips_hint :: string where
  "tips_hint = ''Check that tips.json exists and is properly formatted''"

definition retrieve :: "DataFiles \<Rightarrow> string \<Rightarrow> TipsOutcome" where
  "retrieve files query =
     (case loadTips files of
        Inl e \<Rightarrow> TipsError e tips_hint
      | Inr tips \<Rightarrow>
          (let results = findSimilar query (map tip_document tips) 2
           in if length results = 0 then TipsResult []
              else if list_all (\<lambda>r. to_hit tips r \<noteq> None) results
                   then TipsResult (map (\<lambda>r. the (to_hit tips r)) results)
                   else TipsError ''Cannot read properties of undefined (reading 'text')''
                          tips_hint))"

section \<open>Nudge composer\<close>

definition is_digit :: "char \<Rightarrow> bool" where
  "is_digit c \<longleftrightarrow> c \<in> set ''0123456789''"

definition digit_val :: "char \<Rightarrow> int" where
  "digit_val c = (case map_of (zip ''0123456789'' [0, 1, 2, 3, 4, 5, 6, 7, 8, 9]) c of
                    Some d \<Rightarrow> d | None \<Rightarrow> 0)"

text \<open>The integer that a string of decimal digits denotes.\<close>

definition parse_digits :: "string \<Rightarrow> int" where
  "parse_digits ds = fold (\<lambda>c n. 10 * n + digit_val c) ds 0"

text \<open>
  The days since the last check-in are a double that is a natural number, or
  \<^verbatim>\<open>Infinity\<close>.
\<close>

datatype number = Number int | Infinity

text \<open>
  \<^verbatim>\<open>parseInt\<close> of a non-empty string of decimal digits: the double nearest to the number
  they denote; what rounds to \<open>2\<^sup>1\<^sup>0\<^sup>2\<^sup>4\<close> is \<^verbatim>\<open>Infinity\<close>.
\<close>

definition parseInt :: "string \<Rightarrow> number" where
  "parseInt ds =
     (let x = fl (of_int (parse_digits ds))
      in if x \<ge> 2 ^ 1024 then Infinity else Number \<lfloor>x\<rfloor>)"

text \<open>
  The decimal digits of a natural number; the fuel is the number of digits that may follow
  the first one, and the number of binary digits is enough.
\<close>

fun show_digits :: "nat \<Rightarrow> int \<Rightarrow> string" where
  "show_digits 0 n = [''0123456789'' ! nat (n mod 10)]"
| "show_digits (Suc f) n =
     (if n < 10 then [''0123456789'' ! nat n]
      else show_digits f (n div 10) @ [''0123456789'' ! nat (n mod 10)])"

text \<open>The decimal text of an integer and of a natural number.\<close>

definition show_int :: "int \<Rightarrow> string" where
  "show_int i = (if i < 0 then ''-'' @ show_digits (nat (bitlen (- i))) (- i)
                 else show_digits (nat (bitlen i)) i)"

definition show_nat :: "nat \<Rightarrow> string" where
  "show_nat n = show_int (int n)"

text \<open>
  The text of a number in a template literal (\<^verbatim>\<open>Number::toString\<close>). It shows the
  decimal with the fewest significant digits that reads back as the same double: the nearest
  to the double when there are several, and the even one of two equally near.
  \<open>shortest e v\<close> tries the multiples of \<open>10\<^sup>e\<close> next to \<open>v\<close>, then those of the smaller
  powers of ten. A decimal of at most 21 digits is written in full, a longer one with an
  exponent.
\<close>

fun shortest :: "nat \<Rightarrow> int \<Rightarrow> int" where
  "shortest 0 v = v"
| "shortest (Suc e) v =
     (let p = 10 ^ Suc e; lo = v div p * p; hi = lo + p;
          lo_ok = (fl (of_int lo) = of_int v); hi_ok = (fl (of_int hi) = of_int v)
      in if lo_ok \<and> hi_ok
         then (if v - lo < hi - v \<or> (v - lo = hi - v \<and> even (v div p)) then lo else hi)
         else if lo_ok then lo
         else if hi_ok then hi
         else shortest e v)"

definition number_to_string :: "number \<Rightarrow> string" where
  "number_to_string x =
     (case x of
        Infinity \<Rightarrow> ''Infinity''
      | Number v \<Rightarrow>
          (let r = show_int (shortest (length (show_int v) - 1) v);
               s = rev (dropWhile (\<lambda>c. c = CHR ''0'') (rev r))
           in if length r \<le> 21 then r
              else [hd r] @ (if length s > 1 then ''.'' @ tl s else [])
                   @ ''e+'' @ show_nat (length r - 1)))"

text \<open>\<^verbatim>\<open>x > c\<close> for such a number and an integer.\<close>

definition number_gt :: "number \<Rightarrow> int \<Rightarrow> bool" where
  "number_gt x c = (case x of Infinity \<Rightarrow> True | Number v \<Rightarrow> v > c)"

text \<open>
  \<^verbatim>\<open>engagementData.match(/last_checkin_days=(\d+)/)\<close>: the leftmost position where the key
  is followed by at least one digit; the capture is the longest run of digits there.
\<close>

definition checkin_key :: string where
  "checkin_key = ''last_checkin_days=''"

fun match_last_checkin_days :: "string \<Rightarrow> string option" where
  "match_last_checkin_days [] = None"
| "match_last_checkin_days (c # cs) =
     (if prefix checkin_key (c # cs)
         \<and> takeWhile is_digit (drop (length checkin_key) (c # cs)) \<noteq> []
      then Some (takeWhile is_digit (drop (length checkin_key) (c # cs)))
      else match_last_checkin_days cs)"

text \<open>\<^verbatim>\<open>matches ? parseInt(matches[1]) : 14\<close>\<close>

definition lastCheckinDays_of :: "string \<Rightarrow> number" where
  "lastCheckinDays_of engagementData =
     (case match_last_checkin_days engagementData of
        Some ds \<Rightarrow> parseInt ds
      | None \<Rightarrow> Number 14)"

text \<open>
  \<^verbatim>\<open>tips.match(/\) ([^|]+)/)\<close>: the leftmost \<^verbatim>\<open>") "\<close> followed by at least one character
  other than the bar; the capture is the longest run of such characters.
\<close>

fun match_tip :: "string \<Rightarrow> string option" where
  "match_tip [] = None"
| "match_tip (c # cs) =
     (if prefix '') '' (c # cs) \<and> takeWhile (\<lambda>x. x \<noteq> CHR ''|'') (drop 2 (c # cs)) \<noteq> []
      then Some (takeWhile (\<lambda>x. x \<noteq> CHR ''|'') (drop 2 (c # cs)))
      else match_tip cs)"

text \<open>\<^verbatim>\<open>String.prototype.trim\<close> strips the white space at both ends.\<close>

definition trim :: "string \<Rightarrow> string" where
  "trim s = rev (dropWhile is_space_char (rev (dropWhile is_space_char s)))"

text \<open>\<^verbatim>\<open>xs[i]\<close>: \<open>None\<close> is \<^verbatim>\<open>undefined\<close>.\<close>

definition nth_opt :: "'a list \<Rightarrow> nat \<Rightarrow> 'a option" where
  "nth_opt xs i = (if i < length xs then Some (xs ! i) else None)"

text \<open>
  \<^verbatim>\<open>Math.floor(Math.random() * n)\<close> for the value \<open>rnd\<close> that \<^verbatim>\<open>Math.random()\<close> returns,
  a double in \<open>[0, 1)\<close>.
\<close>

definition random_index :: "rat \<Rightarrow> nat \<Rightarrow> nat" where
  "random_index rnd n = nat \<lfloor>js_mul rnd (of_nat n)\<rfloor>"

definition suggestedQuestions :: "string list" where
  "suggestedQuestions =
     [''What's one win from this week you'd like to share?'',
      ''What challenge could benefit from another perspective?'',
      ''How are you progressing on your current goals?'',
      ''What's one thing you'd like feedback on?'']"

text \<open>\<^verbatim>\<open>pairId ? pairings.find(...) : pairings[random index]\<close>; the empty string is falsy.\<close>

definition select_pair :: "Pairing list \<Rightarrow> rat \<Rightarrow> string option \<Rightarrow> Pairing option" where
  "select_pair pairings rnd pairId =
     (case pairId of
        None \<Rightarrow> nth_opt pairings (random_index rnd (length pairings))
      | Some p \<Rightarrow>
          if p = [] then nth_opt pairings (random_index rnd (length pairings))
          else find (\<lambda>x. pair_id x = p) pairings)"

definition overdue_body :: "User \<Rightarrow> User \<Rightarrow> number \<Rightarrow> string \<Rightarrow> string \<Rightarrow> string" where
  "overdue_body mentee mentor lastCheckinDays tipText question =
     ''Hi '' @ first_name mentee @ '', noticed it has been '' @ number_to_string lastCheckinDays
     @ '' days since your last check-in. '' @ tipText
     @ '' Here's a gentle prompt you can use with '' @ first_name mentor @ '': \"'' @ question @ ''\"''"

definition connected_body :: "User \<Rightarrow> User \<Rightarrow> string \<Rightarrow> string" where
  "connected_body mentee mentor question =
     ''Hi '' @ first_name mentee
     @ '', great to see you're staying connected! Here's a conversation starter for your next session with ''
     @ first_name mentor @ '': \"'' @ question @ ''\"''"

definition nudge_text :: "User \<Rightarrow> Programme \<Rightarrow> string \<Rightarrow> string" where
  "nudge_text mentee programme body =
     ''To: '' @ first_name mentee @ [CHR 0x0A]
     @ ''Subject: Checking in on your '' @ prog_name programme @ '' progress'' @ [CHR 0x0A]
     @ ''Body: '' @ body"

text \<open>The part of \<^verbatim>\<open>compose\<close> after a target pair has been found.\<close>

definition compose_for :: "User list \<Rightarrow> Programme list \<Rightarrow> rat \<Rightarrow> number \<Rightarrow> string \<Rightarrow> Pairing \<Rightarrow> string" where
  "compose_for users programmes rnd lastCheckinDays tips targetPair =
     (case (find (\<lambda>u. user_id u = mentee_id targetPair) users,
            find (\<lambda>u. user_id u = mentor_id targetPair) users,
            find (\<lambda>p. prog_programme_id p = programme_id targetPair) programmes) of
        (Some mentee, Some mentor, Some programme) \<Rightarrow>
          (let tipText = (case match_tip tips of
                            Some m \<Rightarrow> trim m
                          | None \<Rightarrow> ''Stay connected with your mentor'');
               isOverdue = number_gt lastCheckinDays (cadence_days programme);
               question = (case nth_opt suggestedQuestions
                                  (random_index rnd (length suggestedQuestions)) of
                             Some q \<Rightarrow> q | None \<Rightarrow> ''undefined'');
               body = (if isOverdue
                       then overdue_body mentee mentor lastCheckinDays tipText question
                       else connected_body mentee mentor question)
           in nudge_text mentee programme body)
      | _ \<Rightarrow> ''Error: Missing data for nudge composition'')"

text \<open>
  \<^verbatim>\<open>ComposeNudge.compose\<close>. It has no \<^verbatim>\<open>try\<close>: a load that throws makes the call throw
  (\<open>Inl\<close> the message). \<open>rnd1\<close> and \<open>rnd2\<close> are the values of the two \<^verbatim>\<open>Math.random()\<close>
  calls, for the pair and for the question.
\<close>

definition compose :: "DataFiles \<Rightarrow> rat \<Rightarrow> rat \<Rightarrow> string \<Rightarrow> string \<Rightarrow> string option \<Rightarrow> string + string" where
  "compose files rnd1 rnd2 engagementData tips pairId =
     (let lastCheckinDays = lastCheckinDays_of engagementData
      in case loadUsers files of Inl e \<Rightarrow> Inl e | Inr users \<Rightarrow>
         case loadPairings files of Inl e \<Rightarrow> Inl e | Inr pairings \<Rightarrow>
         case loadProgrammes files of Inl e \<Rightarrow> Inl e | Inr programmes \<Rightarrow>
         (case select_pair pairings rnd1 pairId of
            None \<Rightarrow> Inr ''Error: No pairing found''
          | Some targetPair \<Rightarrow>
              Inr (compose_for users programmes rnd2 lastCheckinDays tips targetPair)))"

section \<open>Orchestrator\<close>

definition startsWith :: "string \<Rightarrow> string \<Rightarrow> bool" where
  "startsWith s p \<longleftrightarrow> prefix p s"

text \<open>\<^verbatim>\<open>s.split(sep)\<close> for a one-character separator: every separator ends a piece.\<close>

fun split_char_acc :: "char \<Rightarrow> string \<Rightarrow> string \<Rightarrow> string list" where
  "split_char_acc sep cur [] = [cur]"
| "split_char_acc sep cur (c # cs) =
     (if c = sep then cur # split_char_acc sep [] cs else split_char_acc sep (cur @ [c]) cs)"

definition split_char :: "char \<Rightarrow> string \<Rightarrow> string list" where
  "split_char sep s = split_char_acc sep [] s"

text \<open>\<^verbatim>\<open>s.replace(pat, rep)\<close> with a string pattern: the first occurrence only.\<close>

fun replace_first :: "string \<Rightarrow> string \<Rightarrow> string \<Rightarrow> string" where
  "replace_first pat rep [] = (if pat = [] then rep else [])"
| "replace_first pat rep (c # cs) =
     (if prefix pat (c # cs) then rep @ drop (length pat) (c # cs)
      else c # replace_first pat rep cs)"

fun join :: "string \<Rightarrow> string list \<Rightarrow> string" where
  "join sep [] = []"
| "join sep [x] = x"
| "join sep (x # y # r) = x @ sep @ join sep (y # r)"

text \<open>
  The text of a hit score in a template literal. The score is the double nearest to
  \<open>n / 100\<close> for a natural \<open>n\<close>, and its shortest decimal that reads back as the same
  double is \<open>n / 100\<close> without trailing zeros.
\<close>

definition score_to_string :: "rat \<Rightarrow> string" where
  "score_to_string x =
     (let n = nat \<lfloor>x * 100 + 1 / 2\<rfloor>
      in if n mod 100 = 0 then show_nat (n div 100)
         else if n mod 10 = 0 then show_nat (n div 100) @ ''.'' @ show_nat (n div 10 mod 10)
         else show_nat (n div 100) @ ''.'' @ show_nat (n div 10 mod 10) @ show_nat (n mod 10))"

record NudgeResult =
  subject :: string
  body :: string

datatype Observation =
    ObsNull
  | ObsEngagement EngagementResult
  | ObsTips TipsOutcome
  | ObsTipsNudge TipsOutcome NudgeResult
  | ObsString string

record AgentResult =
  thought :: string
  result_action :: string
  observation :: Observation
  reflection :: string

definition engagementData_of :: "EngagementResult \<Rightarrow> string" where
  "engagementData_of r =
     (case r of
        SummaryResult s d b l \<Rightarrow>
          ''sample='' @ show_nat s @ '' dormant='' @ show_nat d @ '' balance='' @ b
          @ '' last_checkin_days='' @ show_int l
      | _ \<Rightarrow> ''sample=0 dormant=0 balance=balanced last_checkin_days=0'')"

text \<open>\<^verbatim>\<open>hits.slice(0, 2).map(h => `(${h.id} ${h.score}) ${h.text}`).join(' | ')\<close>\<close>

definition format_tips :: "Hit list \<Rightarrow> string" where
  "format_tips hs =
     join '' | '' (map (\<lambda>h. ''('' @ hit_id h @ '' '' @ score_to_string (hit_score h) @ '') ''
                             @ hit_text h) (take 2 hs))"

definition nudge_of_text :: "string \<Rightarrow> NudgeResult" where
  "nudge_of_text nudgeText =
     (let lines = split_char (CHR 0x0A) nudgeText;
          subjectLine = find (\<lambda>l. startsWith l ''Subject:'') lines;
          bodyLines = filter (\<lambda>l. startsWith l ''Body:'') lines
      in \<lparr>subject = (case subjectLine of
                       Some l \<Rightarrow> if l = [] then ''Mentorship update''
                                 else replace_first ''Subject: '' [] l
                     | None \<Rightarrow> ''Mentorship update''),
          body = (case bodyLines of
                    l # _ \<Rightarrow> replace_first ''Body: '' [] l
                  | [] \<Rightarrow> nudgeText)\<rparr>)"

definition reflection_of_type :: "bool \<Rightarrow> string" where
  "reflection_of_type is_error = (if is_error then ''needs improvement'' else ''looks ok'')"

definition is_engagement_error :: "EngagementResult \<Rightarrow> bool" where
  "is_engagement_error r = (case r of ErrorResult _ _ \<Rightarrow> True | _ \<Rightarrow> False)"

definition is_tips_error :: "TipsOutcome \<Rightarrow> bool" where
  "is_tips_error r = (case r of TipsError _ _ \<Rightarrow> True | _ \<Rightarrow> False)"

text \<open>The \<^verbatim>\<open>catch\<close> block of \<^verbatim>\<open>main\<close>, for an \<^verbatim>\<open>Error\<close> with the given message.\<close>

definition caught :: "AgentResult \<Rightarrow> string \<Rightarrow> AgentResult" where
  "caught result msg =
     result\<lparr>observation := ObsString (''Error: '' @ msg), reflection := ''needs improvement''\<rparr>"

text \<open>
  The agent loop of \<^verbatim>\<open>main\<close>, from the decision that \<^verbatim>\<open>brain.think(prompt)\<close> returned
  (\<^verbatim>\<open>think\<close> catches its own errors) to the result record that is printed. \<open>limit\<close> is
  \<open>None\<close> when \<^verbatim>\<open>parseInt\<close> gave \<^verbatim>\<open>NaN\<close>. \<^verbatim>\<open>EngagementPulse.run\<close> and
  \<^verbatim>\<open>MentorTips.retrieve\<close> catch their own errors; \<^verbatim>\<open>ComposeNudge.compose\<close> does not, and
  an error it throws reaches the \<^verbatim>\<open>catch\<close> block.
\<close>

definition agent_loop ::
  "DataFiles \<Rightarrow> int \<Rightarrow> rat \<Rightarrow> rat \<Rightarrow> BrainDecision \<Rightarrow> string \<Rightarrow> int option \<Rightarrow> bool \<Rightarrow> string option
     \<Rightarrow> AgentResult" where
  "agent_loop files now rnd1 rnd2 decision prompt' limit compose_flag pairId =
     (let result = \<lparr>thought = ''Processing: \"'' @ prompt' @ ''\"'', result_action = action decision,
                     observation = ObsNull, reflection = ''needs improvement''\<rparr>
      in if startsWith (action decision) ''USE:''
         then (let toolParts = split_char CHR '':'' (drop 4 (action decision));
                   tool = (case nth_opt toolParts 0 of Some t \<Rightarrow> t | None \<Rightarrow> ''undefined'');
                   toolMode = (case nth_opt toolParts 1 of
                                 Some m \<Rightarrow> if m = [] then mode decision else Some m
                               | None \<Rightarrow> mode decision)
               in if tool = ''engagement_pulse''
                  then (let pulseResult = run files now
                              \<lparr>opt_mode = toolMode, opt_limit = limit,
                               opt_prompt = Some (case prompt decision of
                                                    Some p \<Rightarrow> if p = [] then prompt' else p
                                                  | None \<Rightarrow> prompt')\<rparr>
                        in result\<lparr>observation := ObsEngagement pulseResult,
                                  reflection := reflection_of_type (is_engagement_error pulseResult)\<rparr>)
                  else if tool = ''mentor_tips''
                  then (let tipsResult = retrieve files prompt';
                            result1 = result\<lparr>observation := ObsTips tipsResult,
                                        reflection := reflection_of_type (is_tips_error tipsResult)\<rparr>
                        in case tipsResult of
                             TipsResult hs \<Rightarrow>
                               if compose_flag \<and> length hs > 0
                               then (let engagementData = engagementData_of
                                           (run files now \<lparr>opt_mode = Some ''summary'',
                                              opt_limit = None, opt_prompt = None\<rparr>);
                                         topTips = format_tips hs
                                     in case compose files rnd1 rnd2 engagementData topTips pairId of
                                          Inl msg \<Rightarrow> caught result1 msg
                                        | Inr nudgeText \<Rightarrow>
                                            result1\<lparr>observation :=
                                              ObsTipsNudge tipsResult (nudge_of_text nudgeText)\<rparr>)
                               else result1
                           | TipsError _ _ \<Rightarrow> result1)
                  else if tool = ''compose_nudge''
                  then (let engagementData = engagementData_of
                              (run files now \<lparr>opt_mode = Some ''summary'',
                                 opt_limit = None, opt_prompt = None\<rparr>);
                            tipsDataObj = retrieve files prompt';
                            tipsDataStr = (case tipsDataObj of
                                             TipsResult hs \<Rightarrow>
                                               if length hs > 0 then format_tips hs
                                               else ''No relevant tips found''
                                           | TipsError _ _ \<Rightarrow> ''No relevant tips found'')
                        in case compose files rnd1 rnd2 engagementData tipsDataStr pairId of
                             Inl msg \<Rightarrow> caught result msg
                           | Inr text \<Rightarrow>
                               result\<lparr>observation := ObsString text, reflection := ''looks ok''\<rparr>)
                  else if tool = ''echo''
                  then result\<lparr>observation := ObsString (''Echo: '' @ prompt'),
                              reflection := ''looks ok''\<rparr>
                  else result\<lparr>observation := ObsString (''Unknown tool: '' @ tool),
                              reflection := ''needs improvement''\<rparr>)
         else if startsWith (action decision) ''RESPOND:''
         then result\<lparr>observation := ObsString (drop 8 (action decision)), reflection := ''looks ok''\<rparr>
         else result\<lparr>observation := ObsString (action decision), reflection := ''looks ok''\<rparr>)"

section \<open>Notions used to state the properties\<close>

text \<open>Every stored count is positive, so a key is present exactly when its count is.\<close>

definition positive_counts :: "fvec \<Rightarrow> bool" where
  "positive_counts v \<longleftrightarrow> (\<forall>k n. map_of v k = Some n \<longrightarrow> 0 < n)"

text \<open>The part of the pair statistics that decides dormancy: each pair with its days since the last check-in.\<close>

definition days_view :: "pairStats \<Rightarrow> (string \<times> int) list" where
  "days_view stats = map (\<lambda>e. (fst e, daysSince (snd e))) stats"

text \<open>
  The squared magnitude of a feature vector and the dot product of two, as exact natural
  numbers; they state what the rounded sums of \<^verbatim>\<open>cosineSimilarity\<close> approximate.
\<close>

definition sq_norm :: "fvec \<Rightarrow> nat" where
  "sq_norm v = (\<Sum>k \<in> fst ` set v. vget0 v k * vget0 v k)"

definition dot_product :: "fvec \<Rightarrow> fvec \<Rightarrow> nat" where
  "dot_product a b = (\<Sum>k \<in> fst ` set a \<union> fst ` set b. vget0 a k * vget0 b k)"

section \<open>Example data\<close>

text \<open>
  A small dataset in the shape of the shared data files, used to run the functions on
  concrete inputs: pair p001 checked in exactly 14 days before \<open>ex_now\<close>, pair p002 20 and
  then exactly 15 days before, pair p003 three days before; the mentee of p003 is not in
  the user file.
\<close>

definition ex_now :: int where
  "ex_now = 20000 * ms_per_day"

definition ex_checkin :: "string \<Rightarrow> int \<Rightarrow> CheckIn" where
  "ex_checkin p t =
     \<lparr>ci_pair_id = p, ci_timestamp = t, mentee_score = 4, mentor_score = 4, ci_notes = ''ok''\<rparr>"

definition ex_checkins :: "CheckIn list" where
  "ex_checkins =
     [ex_checkin ''p002'' (ex_now - 20 * ms_per_day),
      ex_checkin ''p001'' (ex_now - 14 * ms_per_day),
      ex_checkin ''p002'' (ex_now - 15 * ms_per_day),
      ex_checkin ''p003'' (ex_now - 3 * ms_per_day - 5000)]"

definition ex_message :: "string \<Rightarrow> string \<Rightarrow> Message" where
  "ex_message p r =
     \<lparr>msg_pair_id = p, msg_timestamp = ''2025-07-15T10:00:00Z'', author_role = r,
      channel = ''email'', msg_text = ''How are your goals progressing?''\<rparr>"

definition ex_messages :: "Message list" where
  "ex_messages =
     [ex_message ''p001'' ''mentor'', ex_message ''p001'' ''mentee'',
      ex_message ''p002'' ''mentor'', ex_message ''p002'' ''mentor'']"

definition ex_user :: "string \<Rightarrow> string \<Rightarrow> string \<Rightarrow> User" where
  "ex_user i r n =
     \<lparr>user_id = i, role = r, email = n @ ''@example.com'', timezone = ''Australia/Melbourne'',
      first_name = n, joined_at = ''2025-05-01T00:00:00Z''\<rparr>"

definition ex_users :: "User list" where
  "ex_users =
     [ex_user ''u001'' ''mentee'' ''Priya'', ex_user ''m001'' ''mentor'' ''Sarah'',
      ex_user ''u002'' ''mentee'' ''Liam'', ex_user ''m002'' ''mentor'' ''Noor'']"

definition ex_pairing :: "string \<Rightarrow> string \<Rightarrow> string \<Rightarrow> string \<Rightarrow> Pairing" where
  "ex_pairing p m u g =
     \<lparr>pair_id = p, mentor_id = m, mentee_id = u, programme_id = g,
      started_at = ''2025-06-01T00:00:00Z''\<rparr>"

definition ex_pairings :: "Pairing list" where
  "ex_pairings =
     [ex_pairing ''p001'' ''m001'' ''u001'' ''prog001'',
      ex_pairing ''p002'' ''m002'' ''u002'' ''prog002'',
      ex_pairing ''p003'' ''m001'' ''u404'' ''prog001'']"

definition ex_programme :: "string \<Rightarrow> string \<Rightarrow> int \<Rightarrow> Programme" where
  "ex_programme g n d =
     \<lparr>prog_programme_id = g, prog_name = n, cadence_days = d, success_markers = [''goal set'']\<rparr>"

definition ex_programmes :: "Programme list" where
  "ex_programmes =
     [ex_programme ''prog001'' ''Career Launch'' 7, ex_programme ''prog002'' ''Leadership'' 30]"

definition ex_tips :: "Tip list" where
  "ex_tips =
     [\<lparr>tip_id = ''t1'', situation = ''dormant'',
       tip_text = ''Send a short, friendly check-in message.''\<rparr>,
      \<lparr>tip_id = ''t2'', situation = ''one_sided'',
       tip_text = ''Ask open questions to rebalance the conversation.''\<rparr>,
      \<lparr>tip_id = ''t3'', situation = ''celebrate_wins'',
       tip_text = ''Share a recent win with your mentor.''\<rparr>]"

definition ex_files :: DataFiles where
  "ex_files =
     \<lparr>loadCheckins = Inr ex_checkins, loadMessages = Inr ex_messages, loadUsers = Inr ex_users,
      loadPairings = Inr ex_pairings, loadProgrammes = Inr ex_programmes, loadTips = Inr ex_tips\<rparr>"

definition summary_options :: EngagementOptions where
  "summary_options = \<lparr>opt_mode = Some ''summary'', opt_limit = None, opt_prompt = None\<rparr>"

section \<open>Verified properties\<close>

subsection \<open>The deterministic router\<close>

lemma case_pairs_word: "list_all (\<lambda>(a, b). is_word_char a \<and> is_word_char b) case_pairs"
  by code_simp

lemma is_word_lower_char: "is_word_char (lower_char c) \<longleftrightarrow> is_word_char c"
proof (cases "map_of case_pairs c")
  case None
  then show ?thesis by (simp add: lower_char_def)
next
  case (Some d)
  then have "(c, d) \<in> set case_pairs" by (rule map_of_SomeD)
  with case_pairs_word have "is_word_char c \<and> is_word_char d"
    by (auto simp: list_all_iff)
  with Some show ?thesis by (simp add: lower_char_def)
qed

lemma list_words_ends: "list_all (\<lambda>w. w \<noteq> [] \<and> is_word_char (hd w) \<and> is_word_char (last w)) list_words"
  by code_simp

lemma last_list_words: "w \<in> set list_words \<Longrightarrow> is_word_char (last w)"
  using list_words_ends by (auto simp: list_all_iff)

lemma hd_list_words: "w \<in> set list_words \<Longrightarrow> w \<noteq> [] \<and> is_word_char (hd w)"
  using list_words_ends by (auto simp: list_all_iff)

lemma is_word_opt_simps [simp]:
  "is_word_opt None = False" "is_word_opt (Some c) = is_word_char c"
  by (simp_all add: is_word_opt_def)

lemma is_word_opt_next_char: "is_word_opt (next_char s) \<longleftrightarrow> s \<noteq> [] \<and> is_word_char (hd s)"
  by (cases s) (simp_all add: is_word_opt_def next_char_def)

lemma alt_at_iff:
  assumes "w \<in> set list_words"
  shows "alt_at w rest \<longleftrightarrow>
    (\<exists>u post. rest = u @ post \<and> toLowerCase u = w \<and> (post = [] \<or> \<not> is_word_char (hd post)))"
proof
  assume a: "alt_at w rest"
  let ?u = "take (length w) rest" and ?post = "drop (length w) rest"
  from a have "toLowerCase ?u = w" by (simp add: alt_at_def)
  moreover from a assms have "?post = [] \<or> \<not> is_word_char (hd ?post)"
    by (auto simp: alt_at_def word_boundary_def is_word_opt_next_char
        dest: last_list_words)
  ultimately show "\<exists>u post. rest = u @ post \<and> toLowerCase u = w \<and> (post = [] \<or> \<not> is_word_char (hd post))"
    by (metis append_take_drop_id)
next
  assume "\<exists>u post. rest = u @ post \<and> toLowerCase u = w \<and> (post = [] \<or> \<not> is_word_char (hd post))"
  then obtain u post where r: "rest = u @ post" and u: "toLowerCase u = w"
    and p: "post = [] \<or> \<not> is_word_char (hd post)" by blast
  from u have len: "length u = length w" by (auto simp: toLowerCase_def)
  with r u have "toLowerCase (take (length w) rest) = w" by simp
  moreover from r len have "drop (length w) rest = post" by simp
  ultimately show "alt_at w rest"
    using p assms
    by (auto simp: alt_at_def word_boundary_def is_word_opt_next_char
        dest: last_list_words)
qed

lemma lower_starts_word:
  assumes "w \<in> set list_words" "toLowerCase u = w"
  shows "u \<noteq> [] \<and> is_word_char (hd u)"
proof -
  from assms hd_list_words have w: "w \<noteq> []" "is_word_char (hd w)" by auto
  with assms(2) have "u \<noteq> []" by (auto simp: toLowerCase_def)
  moreover with assms(2) have "hd w = lower_char (hd u)"
    by (cases u) (auto simp: toLowerCase_def)
  ultimately show ?thesis using w by (simp add: is_word_lower_char)
qed

lemma listPattern_at_iff:
  "listPattern_at before rest \<longleftrightarrow>
    \<not> is_word_opt before \<and>
    (\<exists>u post. rest = u @ post \<and> toLowerCase u \<in> set list_words
        \<and> (post = [] \<or> \<not> is_word_char (hd post)))"
proof -
  have "listPattern_at before rest \<longleftrightarrow>
      word_boundary before (next_char rest) \<and>
      (\<exists>w\<in>set list_words. \<exists>u post. rest = u @ post \<and> toLowerCase u = w
          \<and> (post = [] \<or> \<not> is_word_char (hd post)))"
    by (auto simp: listPattern_at_def list_ex_iff alt_at_iff)
  moreover have "is_word_opt (next_char rest)"
    if "rest = u @ post" "toLowerCase u \<in> set list_words" for u post
    using lower_starts_word[OF that(2) refl] that(1)
    by (cases u) (auto simp: is_word_opt_next_char)
  ultimately show ?thesis
    by (auto simp: word_boundary_def)
qed

lemma listPattern_scan_iff:
  "listPattern_scan before s \<longleftrightarrow>
    (\<exists>pre u post. s = pre @ u @ post \<and> toLowerCase u \<in> set list_words
        \<and> \<not> is_word_opt (if pre = [] then before else Some (last pre))
        \<and> (post = [] \<or> \<not> is_word_char (hd post)))"
proof (induction s arbitrary: before)
  case Nil
  show ?case by (auto simp: listPattern_at_iff)
next
  case (Cons c cs)
  show ?case (is "?L \<longleftrightarrow> ?R")
  proof
    assume ?L
    then consider "listPattern_at before (c # cs)" | "listPattern_scan (Some c) cs" by auto
    then show ?R
    proof cases
      case 1
      then obtain u post where "c # cs = u @ post" "toLowerCase u \<in> set list_words"
        "\<not> is_word_opt before" "post = [] \<or> \<not> is_word_char (hd post)"
        by (auto simp: listPattern_at_iff)
      then show ?thesis by (intro exI[of _ "[]"] exI[of _ u] exI[of _ post]) simp
    next
      case 2
      then obtain pre u post where h: "cs = pre @ u @ post" "toLowerCase u \<in> set list_words"
        "\<not> is_word_opt (if pre = [] then Some c else Some (last pre))"
        "post = [] \<or> \<not> is_word_char (hd post)"
        using Cons.IH by blast
      show ?thesis
        by (intro exI[of _ "c # pre"] exI[of _ u] exI[of _ post]) (use h in auto)
    qed
  next
    assume ?R
    then obtain pre u post where h: "c # cs = pre @ u @ post" "toLowerCase u \<in> set list_words"
        "\<not> is_word_opt (if pre = [] then before else Some (last pre))"
        "post = [] \<or> \<not> is_word_char (hd post)" by blast
    show ?L
    proof (cases pre)
      case Nil
      with h have "listPattern_at before (c # cs)"
        by (auto simp: listPattern_at_iff)
      then show ?thesis by simp
    next
      case (Cons d pre')
      with h have "cs = pre' @ u @ post" "d = c" by auto
      moreover from h Cons have "\<not> is_word_opt (if pre' = [] then Some c else Some (last pre'))"
        by (auto split: if_splits)
      ultimately have "listPattern_scan (Some c) cs"
        using h(2,4) Cons.IH by blast
      then show ?thesis by simp
    qed
  qed
qed

lemma not_word_before_None:
  "\<not> is_word_opt (if pre = [] then None else Some (last pre)) \<longleftrightarrow>
     pre = [] \<or> \<not> is_word_char (last pre)"
  by simp

lemma listPattern_test_iff:
  "listPattern_test s \<longleftrightarrow>
    (\<exists>pre u post. s = pre @ u @ post \<and> toLowerCase u \<in> set list_words
        \<and> (pre = [] \<or> \<not> is_word_char (last pre))
        \<and> (post = [] \<or> \<not> is_word_char (hd post)))"
  unfolding listPattern_test_def listPattern_scan_iff not_word_before_None ..


text \<open>
  C7. Whenever rule 1 fires (the lower-cased prompt contains "engagement", "pulse" or
  "checkin") or rule 2 fires without "tip"/"advice" (it contains "dormant" or "inactive"),
  the action is \<^verbatim>\<open>USE:engagement_pulse:list\<close> if the prompt contains one of the words
  which, who, list, show in any letter case, delimited on both sides by a non-word character
  or an end of the prompt, and \<^verbatim>\<open>USE:engagement_pulse:summary\<close> otherwise; the
  \<^verbatim>\<open>mode\<close> field carries the same word.
\<close>

theorem decide_engagement_pulse_mode:
  assumes "str_includes (toLowerCase p) ''engagement'' \<or> str_includes (toLowerCase p) ''pulse''
             \<or> str_includes (toLowerCase p) ''checkin''
           \<or> (str_includes (toLowerCase p) ''dormant'' \<or> str_includes (toLowerCase p) ''inactive'')
             \<and> \<not> (str_includes (toLowerCase p) ''tip'' \<or> str_includes (toLowerCase p) ''advice'')"
  shows "action (decide p) = ''USE:engagement_pulse:'' @
           (if \<exists>pre u post. p = pre @ u @ post
                  \<and> toLowerCase u \<in> {''which'', ''who'', ''list'', ''show''}
                  \<and> (pre = [] \<or> \<not> is_word_char (last pre))
                  \<and> (post = [] \<or> \<not> is_word_char (hd post))
            then ''list'' else ''summary'')
       \<and> mode (decide p) = Some
           (if \<exists>pre u post. p = pre @ u @ post
                  \<and> toLowerCase u \<in> {''which'', ''who'', ''list'', ''show''}
                  \<and> (pre = [] \<or> \<not> is_word_char (last pre))
                  \<and> (post = [] \<or> \<not> is_word_char (hd post))
            then ''list'' else ''summary'')"
proof -
  have w: "set list_words = {''which'', ''who'', ''list'', ''show''}"
    by (simp add: list_words_def)
  show ?thesis
    using assms unfolding listPattern_test_iff[of p, unfolded w, symmetric]
    by (auto simp: decide_def Let_def)
qed

theorem decide_engagement_pulse_mode_witness:
  "action (decide ''Which mentees look dormant?'') = ''USE:engagement_pulse:list''
   \<and> mode (decide ''Which mentees look dormant?'') = Some ''list''
   \<and> action (decide ''showing engagement'') = ''USE:engagement_pulse:summary''"
proof -
  have h1: "str_includes (toLowerCase ''Which mentees look dormant?'') ''dormant''"
    and n1: "\<not> str_includes (toLowerCase ''Which mentees look dormant?'') ''tip''"
            "\<not> str_includes (toLowerCase ''Which mentees look dormant?'') ''advice''"
    and h2: "str_includes (toLowerCase ''showing engagement'') ''engagement''"
    by code_simp+
  have m1: "\<exists>pre u post. ''Which mentees look dormant?'' = pre @ u @ post
                  \<and> toLowerCase u \<in> {''which'', ''who'', ''list'', ''show''}
                  \<and> (pre = [] \<or> \<not> is_word_char (last pre))
                  \<and> (post = [] \<or> \<not> is_word_char (hd post))"
    by (rule exI[of _ "[]"], rule exI[of _ "''Which''"],
        rule exI[of _ "'' mentees look dormant?''"]) code_simp
  have m2: "\<not> (\<exists>pre u post. ''showing engagement'' = pre @ u @ post
                  \<and> toLowerCase u \<in> {''which'', ''who'', ''list'', ''show''}
                  \<and> (pre = [] \<or> \<not> is_word_char (last pre))
                  \<and> (post = [] \<or> \<not> is_word_char (hd post)))"
  proof -
    have "\<not> listPattern_test ''showing engagement''" by code_simp
    then show ?thesis
      unfolding listPattern_test_iff by (simp add: list_words_def)
  qed
  from decide_engagement_pulse_mode[of "''Which mentees look dormant?''"] h1 n1 m1
  have a: "action (decide ''Which mentees look dormant?'') = ''USE:engagement_pulse:list''
     \<and> mode (decide ''Which mentees look dormant?'') = Some ''list''"
    by simp
  from decide_engagement_pulse_mode[of "''showing engagement''"] h2 m2
  have b: "action (decide ''showing engagement'') = ''USE:engagement_pulse:summary''"
    by simp
  from a b show ?thesis by blast
qed

subsection \<open>Vectorisation\<close>

lemma map_of_map_set: "map_of (map_set v k n) k' = (if k' = k then Some n else map_of v k')"
  by (induction v k n rule: map_set.induct) auto

lemma vget0_map_set: "vget0 (map_set v k n) k' = (if k' = k then n else vget0 v k')"
  by (simp add: vget0_def map_of_map_set)

lemma vget0_bump: "vget0 (bump v k) k' = vget0 v k' + (if k' = k then 1 else 0)"
  by (simp add: bump_def vget0_map_set)

lemma keys_map_set: "fst ` set (map_set v k n) = insert k (fst ` set v)"
  by (induction v k n rule: map_set.induct) auto

lemma keys_bump: "fst ` set (bump v k) = insert k (fst ` set v)"
  by (simp add: bump_def keys_map_set)

lemma vget0_add_unigram:
  "vget0 (add_unigram w v) k = vget0 v k + (if w = k \<and> 2 < length w \<and> \<not> is_stop w then 1 else 0)"
  by (auto simp: add_unigram_def vget0_bump)

lemma vget0_fold_unigram:
  "vget0 (fold add_unigram ws v) k
     = vget0 v k + length (filter (\<lambda>w. w = k \<and> 2 < length w \<and> \<not> is_stop w) ws)"
  by (induction ws arbitrary: v) (auto simp: vget0_add_unigram)

lemma vget0_add_bigrams:
  "vget0 (add_bigrams ws v) k
     = vget0 v k
       + length (filter (\<lambda>(a, b). \<not> is_stop a \<and> \<not> is_stop b \<and> a @ ''_'' @ b = k) (zip ws (tl ws)))"
  by (induction ws v rule: add_bigrams.induct) (auto simp: vget0_bump)

lemma positive_bump: "positive_counts v \<Longrightarrow> positive_counts (bump v k)"
  by (auto simp: positive_counts_def bump_def map_of_map_set)

lemma positive_add_unigram: "positive_counts v \<Longrightarrow> positive_counts (add_unigram w v)"
  by (simp add: add_unigram_def positive_bump)

lemma positive_fold_unigram: "positive_counts v \<Longrightarrow> positive_counts (fold add_unigram ws v)"
  by (induction ws arbitrary: v) (simp_all add: positive_add_unigram)

lemma positive_add_bigrams: "positive_counts v \<Longrightarrow> positive_counts (add_bigrams ws v)"
  by (induction ws v rule: add_bigrams.induct) (simp_all add: positive_bump)

lemma positive_empty: "positive_counts []"
  by (simp add: positive_counts_def)

lemma positive_vectorise: "positive_counts (vectorise t)"
  unfolding vectorise_def Let_def
  by (intro positive_add_bigrams positive_fold_unigram positive_empty)

lemma key_iff_positive:
  assumes "positive_counts v"
  shows "k \<in> fst ` set v \<longleftrightarrow> 0 < vget0 v k"
proof (cases "map_of v k")
  case None
  then show ?thesis by (simp add: vget0_def map_of_eq_None_iff[symmetric])
next
  case (Some n)
  with assms have "0 < n" by (auto simp: positive_counts_def)
  moreover from Some have "k \<in> fst ` set v"
    by (metis map_of_eq_None_iff option.distinct(1))
  ultimately show ?thesis using Some by (simp add: vget0_def)
qed

lemma vget0_vectorise:
  "vget0 (vectorise t) k
     = length (filter (\<lambda>w. w = k \<and> 2 < length w \<and> \<not> is_stop w) (words_of t))
       + length (filter (\<lambda>(a, b). \<not> is_stop a \<and> \<not> is_stop b \<and> a @ ''_'' @ b = k)
           (zip (words_of t) (tl (words_of t))))"
proof -
  have "vget0 [] k = 0" by (simp add: vget0_def)
  then show ?thesis
    by (simp add: vectorise_def Let_def vget0_add_bigrams vget0_fold_unigram)
qed

lemma words_of_nonempty: "w \<in> set (words_of t) \<Longrightarrow> w \<noteq> []"
  by (auto simp: words_of_def)

lemma stop_no_underscore: "is_stop w \<Longrightarrow> CHR ''_'' \<notin> set w"
proof -
  have "list_all (\<lambda>w. CHR ''_'' \<notin> set w) stopWords" by code_simp
  then show "is_stop w \<Longrightarrow> CHR ''_'' \<notin> set w"
    by (auto simp: is_stop_def list_all_iff)
qed

lemma filter_pos_ex: "0 < length (filter P xs) \<longleftrightarrow> (\<exists>x\<in>set xs. P x)"
  by (induction xs) auto

lemma key_vectorise_cases:
  assumes "k \<in> fst ` set (vectorise t)"
  shows "(k \<in> set (words_of t) \<and> 2 < length k \<and> \<not> is_stop k)
       \<or> (\<exists>(a, b) \<in> set (zip (words_of t) (tl (words_of t))).
             \<not> is_stop a \<and> \<not> is_stop b \<and> a @ ''_'' @ b = k)"
proof -
  from assms have "0 < vget0 (vectorise t) k"
    by (simp add: key_iff_positive[OF positive_vectorise])
  then have "0 < length (filter (\<lambda>w. w = k \<and> 2 < length w \<and> \<not> is_stop w) (words_of t))
     \<or> 0 < length (filter (\<lambda>(a, b). \<not> is_stop a \<and> \<not> is_stop b \<and> a @ ''_'' @ b = k)
           (zip (words_of t) (tl (words_of t))))"
    unfolding vget0_vectorise by linarith
  then show ?thesis unfolding filter_pos_ex by auto
qed

lemma key_vectorise_shape:
  assumes "k \<in> fst ` set (vectorise t)"
  shows "2 < length k \<and> \<not> is_stop k"
  using key_vectorise_cases[OF assms]
proof
  assume "k \<in> set (words_of t) \<and> 2 < length k \<and> \<not> is_stop k"
  then show ?thesis by simp
next
  assume "\<exists>(a, b) \<in> set (zip (words_of t) (tl (words_of t))).
             \<not> is_stop a \<and> \<not> is_stop b \<and> a @ ''_'' @ b = k"
  then obtain a b where ab: "(a, b) \<in> set (zip (words_of t) (tl (words_of t)))"
    and k: "k = a @ ''_'' @ b" by auto
  from ab have "a \<in> set (words_of t)" "b \<in> set (tl (words_of t))"
    by (auto dest: set_zip_leftD set_zip_rightD)
  then have "a \<noteq> []" "b \<noteq> []"
    by (auto dest: words_of_nonempty list.set_sel(2)[rotated])
  then have "2 < length k" using k by (cases a; cases b) auto
  moreover have "\<not> is_stop k" using k stop_no_underscore[of k] by auto
  ultimately show ?thesis by simp
qed
text \<open>
  C6. For every text, with \<open>ws\<close> the token sequence before any filtering: the count stored
  for a feature \<open>k\<close> is the number of tokens equal to \<open>k\<close> that are longer than 2 and not
  stop words (unigrams) plus the number of adjacent token pairs, neither a stop word,
  whose bigram \<open>w\<^sub>i_w\<^sub>i\<^sub>+\<^sub>1\<close> is \<open>k\<close> (no length filter on the pair). Hence a token is
  a feature only if it is longer than 2 and not a stop word, and it is one whenever it is
  both; every adjacent pair without stop word yields its bigram feature; a token of
  length at most 2 is never a feature, although it can be part of a bigram feature.
\<close>

theorem vectorise_unigram_bigram_asymmetry:
  "(\<forall>k. vget0 (vectorise t) k
         = length (filter (\<lambda>w. w = k \<and> 2 < length w \<and> \<not> is_stop w) (words_of t))
           + length (filter (\<lambda>(a, b). \<not> is_stop a \<and> \<not> is_stop b \<and> a @ ''_'' @ b = k)
               (zip (words_of t) (tl (words_of t)))))
   \<and> (\<forall>w \<in> set (words_of t).
         w \<in> fst ` set (vectorise t) \<longrightarrow> 2 < length w \<and> \<not> is_stop w)
   \<and> (\<forall>w \<in> set (words_of t).
         2 < length w \<and> \<not> is_stop w \<longrightarrow> w \<in> fst ` set (vectorise t))
   \<and> (\<forall>i. Suc i < length (words_of t) \<and> \<not> is_stop (words_of t ! i)
           \<and> \<not> is_stop (words_of t ! Suc i)
         \<longrightarrow> (words_of t ! i) @ ''_'' @ (words_of t ! Suc i) \<in> fst ` set (vectorise t))
   \<and> (\<forall>w \<in> set (words_of t). length w \<le> 2 \<longrightarrow> w \<notin> fst ` set (vectorise t))
   \<and> (\<exists>s w b. w \<in> set (words_of s) \<and> length w \<le> 2 \<and> \<not> is_stop w
         \<and> w @ ''_'' @ b \<in> fst ` set (vectorise s))"
proof (intro conjI allI ballI impI)
  fix k
  show "vget0 (vectorise t) k
         = length (filter (\<lambda>w. w = k \<and> 2 < length w \<and> \<not> is_stop w) (words_of t))
           + length (filter (\<lambda>(a, b). \<not> is_stop a \<and> \<not> is_stop b \<and> a @ ''_'' @ b = k)
               (zip (words_of t) (tl (words_of t))))"
    by (rule vget0_vectorise)
next
  fix w assume "w \<in> fst ` set (vectorise t)"
  then show "2 < length w" "\<not> is_stop w"
    using key_vectorise_shape by blast+
next
  fix w assume w: "w \<in> set (words_of t)" "2 < length w \<and> \<not> is_stop w"
  then have "0 < length (filter (\<lambda>u. u = w \<and> 2 < length u \<and> \<not> is_stop u) (words_of t))"
    unfolding filter_pos_ex by blast
  then have "0 < vget0 (vectorise t) w"
    unfolding vget0_vectorise by linarith
  then show "w \<in> fst ` set (vectorise t)"
    by (simp add: key_iff_positive[OF positive_vectorise])
next
  fix i
  let ?ws = "words_of t"
  assume i: "Suc i < length ?ws \<and> \<not> is_stop (?ws ! i) \<and> \<not> is_stop (?ws ! Suc i)"
  then have len: "Suc i < length ?ws" by simp
  then have "i < length (zip ?ws (tl ?ws))" by simp
  then have "zip ?ws (tl ?ws) ! i \<in> set (zip ?ws (tl ?ws))" by (rule nth_mem)
  moreover from len have "zip ?ws (tl ?ws) ! i = (?ws ! i, ?ws ! Suc i)"
    by (simp add: nth_tl)
  ultimately have "(?ws ! i, ?ws ! Suc i) \<in> set (zip ?ws (tl ?ws))" by simp
  with i have "0 < length (filter (\<lambda>(a, b). \<not> is_stop a \<and> \<not> is_stop b
        \<and> a @ ''_'' @ b = (?ws ! i) @ ''_'' @ (?ws ! Suc i)) (zip ?ws (tl ?ws)))"
    unfolding filter_pos_ex by blast
  then have "0 < vget0 (vectorise t) ((?ws ! i) @ ''_'' @ (?ws ! Suc i))"
    unfolding vget0_vectorise by linarith
  then show "(?ws ! i) @ ''_'' @ (?ws ! Suc i) \<in> fst ` set (vectorise t)"
    by (simp add: key_iff_positive[OF positive_vectorise])
next
  fix w assume "w \<in> set (words_of t)" "length w \<le> 2"
  then show "w \<notin> fst ` set (vectorise t)"
    using key_vectorise_shape[of w t] by auto
next
  have "''ai'' \<in> set (words_of ''ai ml'') \<and> length ''ai'' \<le> 2 \<and> \<not> is_stop ''ai''
         \<and> ''ai'' @ ''_'' @ ''ml'' \<in> fst ` set (vectorise ''ai ml'')"
    by code_simp
  then show "\<exists>s w b. w \<in> set (words_of s) \<and> length w \<le> 2 \<and> \<not> is_stop w
         \<and> w @ ''_'' @ b \<in> fst ` set (vectorise s)"
    by blast
qed

theorem vectorise_unigram_bigram_asymmetry_witness:
  "''my'' \<in> set (words_of ''My AI mentee is dormant'')
   \<and> ''my'' \<notin> fst ` set (vectorise ''My AI mentee is dormant'')
   \<and> ''my_ai'' \<in> fst ` set (vectorise ''My AI mentee is dormant'')
   \<and> ''mentee'' \<in> fst ` set (vectorise ''My AI mentee is dormant'')
   \<and> vget0 (vectorise ''My AI mentee is dormant'') ''ai_mentee'' = 1"
proof -
  let ?t = "''My AI mentee is dormant''"
  have ws: "words_of ?t = [''my'', ''ai'', ''mentee'', ''is'', ''dormant'']"
    by code_simp
  have st: "\<not> is_stop ''my''" "\<not> is_stop ''ai''" "\<not> is_stop ''mentee''"
    by code_simp+
  note T = vectorise_unigram_bigram_asymmetry[of ?t, unfolded ws]
  have a: "''my'' \<notin> fst ` set (vectorise ?t)"
    using T[THEN conjunct2, THEN conjunct2, THEN conjunct2, THEN conjunct2, THEN conjunct1]
    by simp
  have b: "''my_ai'' \<in> fst ` set (vectorise ?t)"
    using T[THEN conjunct2, THEN conjunct2, THEN conjunct2, THEN conjunct1, rule_format, of 0] st
    by simp
  have c: "''mentee'' \<in> fst ` set (vectorise ?t)"
    using T[THEN conjunct2, THEN conjunct2, THEN conjunct1] st
    by simp
  have d: "vget0 (vectorise ?t) ''ai_mentee'' = 1"
    using T[THEN conjunct1, rule_format, of "''ai_mentee''"] st
    by (simp add: is_stop_def stopWords_def)
  from a b c d ws show ?thesis by simp
qed

subsection \<open>Rounding\<close>

lemma fl_zero [simp]: "fl 0 = 0"
  by (simp add: fl_def)

lemma js_mul_zero [simp]: "js_mul 0 b = 0" "js_mul a 0 = 0"
  by (simp_all add: js_mul_def)

lemma js_add_zero_zero [simp]: "js_add 0 0 = 0"
  by (simp add: js_add_def)

lemma js_div_zero [simp]: "js_div 0 b = 0"
  by (simp add: js_div_def)

lemma pow2_powi: "pow2 e = 2 powi e"
  by (simp add: pow2_def power_int_def power_one_over inverse_eq_divide)

lemma pow2_pos [simp]: "0 < pow2 e"
  by (simp add: pow2_powi)

lemma pow2_nonneg [simp]: "0 \<le> pow2 e"
  using pow2_pos[of e] by linarith

lemma pow2_nonzero [simp]: "pow2 e \<noteq> 0"
  using pow2_pos[of e] by linarith

lemma pow2_add: "pow2 (a + b) = pow2 a * pow2 b"
  by (simp add: pow2_powi power_int_add)

lemma pow2_mono: "a \<le> b \<Longrightarrow> pow2 a \<le> pow2 b"
  by (simp add: pow2_powi power_int_increasing)

lemma pow2_nat: "0 \<le> e \<Longrightarrow> pow2 e = 2 ^ nat e"
  by (simp add: pow2_def)

lemma expo_bounds:
  assumes "0 < x"
  shows "pow2 (expo x) \<le> x \<and> x < pow2 (expo x + 1)"
proof -
  obtain p q where pq: "quotient_of x = (p, q)" by (cases "quotient_of x")
  then have q: "0 < q" and x: "x = of_int p / of_int q"
    by (auto dest: quotient_of_denom_pos quotient_of_div)
  with assms have p: "0 < p" by (simp add: zero_less_divide_iff)
  let ?e0 = "bitlen p - bitlen q"
  have bp: "2 ^ nat (bitlen p - 1) \<le> p" "p < 2 ^ nat (bitlen p)"
    using bitlen_bounds[OF p] by auto
  have bq: "2 ^ nat (bitlen q - 1) \<le> q" "q < 2 ^ nat (bitlen q)"
    using bitlen_bounds[OF q] by auto
  have bl: "1 \<le> bitlen p" "1 \<le> bitlen q"
    using p q bitlen_eq_zero_iff[of p] bitlen_eq_zero_iff[of q] bitlen_nonneg[of p] bitlen_nonneg[of q]
    by linarith+
  have P1: "pow2 (bitlen p - 1) \<le> of_int p"
  proof -
    have "(of_int (2 ^ nat (bitlen p - 1)) :: rat) \<le> of_int p" using bp(1) by (simp only: of_int_le_iff)
    then show ?thesis using bl by (simp add: pow2_nat)
  qed
  have P2: "of_int p < pow2 (bitlen p)"
  proof -
    have "(of_int p :: rat) < of_int (2 ^ nat (bitlen p))" using bp(2) by (simp only: of_int_less_iff)
    then show ?thesis using bl by (simp add: pow2_nat)
  qed
  have Q1: "pow2 (bitlen q - 1) \<le> of_int q"
  proof -
    have "(of_int (2 ^ nat (bitlen q - 1)) :: rat) \<le> of_int q" using bq(1) by (simp only: of_int_le_iff)
    then show ?thesis using bl by (simp add: pow2_nat)
  qed
  have Q2: "of_int q < pow2 (bitlen q)"
  proof -
    have "(of_int q :: rat) < of_int (2 ^ nat (bitlen q))" using bq(2) by (simp only: of_int_less_iff)
    then show ?thesis using bl by (simp add: pow2_nat)
  qed
  have qpos: "(0::rat) < of_int q" using q by simp
  have lower: "pow2 (?e0 - 1) < x"
  proof -
    have "pow2 (?e0 - 1) * pow2 (bitlen q) = pow2 (bitlen p - 1)"
      by (simp add: pow2_add[symmetric])
    moreover have "pow2 (?e0 - 1) * of_int q < pow2 (?e0 - 1) * pow2 (bitlen q)"
      using Q2 by simp
    ultimately have "pow2 (?e0 - 1) * of_int q < of_int p" using P1 by linarith
    then show ?thesis unfolding x using qpos by (simp add: pos_less_divide_eq)
  qed
  have upper: "x < pow2 (?e0 + 1)"
  proof -
    have "pow2 (?e0 + 1) * pow2 (bitlen q - 1) = pow2 (bitlen p)"
      by (simp add: pow2_add[symmetric])
    moreover have "pow2 (?e0 + 1) * pow2 (bitlen q - 1) \<le> pow2 (?e0 + 1) * of_int q"
      using Q1 by simp
    ultimately have "of_int p < pow2 (?e0 + 1) * of_int q" using P2 by linarith
    then show ?thesis unfolding x using qpos by (simp add: pos_divide_less_eq)
  qed
  show ?thesis
  proof (cases "pow2 ?e0 \<le> x")
    case True
    then have "expo x = ?e0" by (simp add: expo_def pq Let_def)
    with True upper show ?thesis by simp
  next
    case False
    then have "expo x = ?e0 - 1" by (simp add: expo_def pq Let_def)
    with False lower show ?thesis by simp
  qed
qed


lemma pow2_lt_imp: "pow2 a < pow2 b \<Longrightarrow> a < b"
  using pow2_mono[of b a] by (cases "a < b") auto

lemma round_half_even_error: "\<bar>of_int (round_half_even m) - m\<bar> \<le> 1 / 2"
proof -
  have "of_int \<lfloor>m\<rfloor> \<le> m" "m < of_int \<lfloor>m\<rfloor> + 1" by linarith+
  then show ?thesis
    by (auto simp: round_half_even_def Let_def abs_le_iff)
qed

lemma round_half_even_of_int [simp]: "round_half_even (of_int k) = k"
  by (simp add: round_half_even_def)

lemma fl_pos_eq:
  assumes "0 < x"
  shows "fl x = of_int (round_half_even (x / pow2 (expo x - 52))) * pow2 (expo x - 52)"
  using assms by (simp add: fl_def Let_def)

lemma significand_bounds:
  assumes "0 < x"
  shows "2 ^ 52 \<le> x / pow2 (expo x - 52)" and "x / pow2 (expo x - 52) < 2 ^ 53"
proof -
  have e: "pow2 (expo x) \<le> x" "x < pow2 (expo x + 1)" using expo_bounds[OF assms] by auto
  have p52: "pow2 52 = 2 ^ 52" and p53: "pow2 53 = 2 ^ 53" by (simp_all add: pow2_def)
  have "expo x = 52 + (expo x - 52)" by simp
  then have "pow2 (expo x) = pow2 (52 + (expo x - 52))" by (rule arg_cong)
  also have "\<dots> = pow2 52 * pow2 (expo x - 52)" by (rule pow2_add)
  finally have a: "pow2 (expo x) = 2 ^ 52 * pow2 (expo x - 52)" unfolding p52 .
  have "expo x + 1 = 53 + (expo x - 52)" by simp
  then have "pow2 (expo x + 1) = pow2 (53 + (expo x - 52))" by (rule arg_cong)
  also have "\<dots> = pow2 53 * pow2 (expo x - 52)" by (rule pow2_add)
  finally have b: "pow2 (expo x + 1) = 2 ^ 53 * pow2 (expo x - 52)" unfolding p53 .
  show "2 ^ 52 \<le> x / pow2 (expo x - 52)"
    using e(1) unfolding a by (simp add: pos_le_divide_eq)
  show "x / pow2 (expo x - 52) < 2 ^ 53"
    using e(2) unfolding b by (simp add: pos_divide_less_eq)
qed

text \<open>The relative error of a rounding is at most \<open>2\<^sup>-\<^sup>5\<^sup>3\<close>.\<close>

lemma fl_error:
  assumes "0 < x"
  shows "\<bar>fl x - x\<bar> \<le> x / 2 ^ 53"
proof -
  let ?P = "pow2 (expo x - 52)"
  let ?m = "x / ?P"
  have x: "x = ?m * ?P" by simp
  have "\<bar>fl x - x\<bar> = \<bar>(of_int (round_half_even ?m) - ?m) * ?P\<bar>"
    unfolding fl_pos_eq[OF assms] by (simp add: algebra_simps)
  also have "\<dots> = \<bar>of_int (round_half_even ?m) - ?m\<bar> * ?P"
    using pow2_pos[of "expo x - 52"] by (simp add: abs_mult abs_of_pos)
  also have "\<dots> \<le> 1 / 2 * ?P"
    by (rule mult_right_mono[OF round_half_even_error]) simp
  also have "\<dots> \<le> (?m / 2 ^ 53) * ?P"
  proof (rule mult_right_mono)
    have "(1::rat) / 2 = 2 ^ 52 / 2 ^ 53" by simp
    also have "\<dots> \<le> ?m / 2 ^ 53"
      by (rule divide_right_mono[OF significand_bounds(1)[OF assms]]) simp
    finally show "1 / 2 \<le> ?m / 2 ^ 53" .
  qed simp
  also have "\<dots> = x / 2 ^ 53" by simp
  finally show ?thesis .
qed

lemma fl_lower: "0 < x \<Longrightarrow> x * (1 - 1 / 2 ^ 53) \<le> fl x"
proof -
  assume "0 < x"
  then have "x - fl x \<le> x / 2 ^ 53" using fl_error[of x] by linarith
  moreover have "x * (1 - 1 / 2 ^ 53) = x - x / 2 ^ 53" by (simp add: right_diff_distrib)
  ultimately show ?thesis by linarith
qed

lemma fl_upper: "0 < x \<Longrightarrow> fl x \<le> x * (1 + 1 / 2 ^ 53)"
proof -
  assume "0 < x"
  then have "fl x - x \<le> x / 2 ^ 53" using fl_error[of x] by linarith
  moreover have "x * (1 + 1 / 2 ^ 53) = x + x / 2 ^ 53" by (simp add: distrib_left)
  ultimately show ?thesis by linarith
qed

lemma fl_pos: "0 < x \<Longrightarrow> 0 < fl x"
proof -
  assume x: "0 < x"
  have "0 < x * (1 - 1 / 2 ^ 53)" using x by simp
  with fl_lower[OF x] show ?thesis by linarith
qed

lemma fl_nonneg: "0 \<le> x \<Longrightarrow> 0 \<le> fl x"
  using fl_pos[of x] by (cases "x = 0") (auto simp: less_eq_rat_def)

text \<open>A number whose significand is an integer is a double: rounding leaves it alone.\<close>

lemma fl_exact:
  assumes "0 < x" and "x / pow2 (expo x - 52) = of_int k"
  shows "fl x = x"
proof -
  have "fl x = of_int k * pow2 (expo x - 52)"
    unfolding fl_pos_eq[OF assms(1)] assms(2) by simp
  also have "\<dots> = x" unfolding assms(2)[symmetric] by simp
  finally show ?thesis .
qed

lemma fl_of_nat:
  assumes "n \<le> 2 ^ 53"
  shows "fl (of_nat n) = of_nat n"
proof (cases "n = 0")
  case True
  then show ?thesis by simp
next
  case False
  let ?x = "of_nat n :: rat"
  have pos: "0 < ?x" using False by simp
  have le: "?x \<le> 2 ^ 53"
  proof -
    have "(of_nat n :: rat) \<le> of_nat (2 ^ 53)" using assms by (simp only: of_nat_le_iff)
    then show ?thesis by simp
  qed
  have "pow2 (expo ?x) \<le> ?x" using expo_bounds[OF pos] by simp
  with le have "pow2 (expo ?x) < pow2 54" by (simp add: pow2_def)
  then have e: "expo ?x \<le> 53" using pow2_lt_imp by fastforce
  show ?thesis
  proof (cases "expo ?x \<le> 52")
    case True
    then have "pow2 (expo ?x - 52) = 1 / 2 ^ nat (52 - expo ?x)"
      by (cases "expo ?x = 52") (simp_all add: pow2_def)
    then have "?x / pow2 (expo ?x - 52) = of_int (int n * 2 ^ nat (52 - expo ?x))"
      by simp
    then show ?thesis by (rule fl_exact[OF pos])
  next
    case False
    with e have e53: "expo ?x = 53" by simp
    then have "pow2 53 \<le> ?x" using expo_bounds[OF pos] by simp
    with le have "?x = 2 ^ 53" by (simp add: pow2_def)
    then have "?x / pow2 (expo ?x - 52) = of_int (2 ^ 52)"
      unfolding e53 by (simp add: pow2_def)
    then show ?thesis by (rule fl_exact[OF pos])
  qed
qed

lemma js_add_of_nat: "a + b \<le> 2 ^ 53 \<Longrightarrow> js_add (of_nat a) (of_nat b) = of_nat (a + b)"
  using fl_of_nat[of "a + b"] by (simp add: js_add_def)

lemma js_mul_of_nat: "a * b \<le> 2 ^ 53 \<Longrightarrow> js_mul (of_nat a) (of_nat b) = of_nat (a * b)"
  using fl_of_nat[of "a * b"] by (simp add: js_mul_def)

lemma isqrt_bits_correct:
  assumes "0 \<le> r" and "r * r \<le> n" and "n < (r + 2 ^ k) * (r + 2 ^ k)"
  shows "0 \<le> isqrt_bits k n r \<and> isqrt_bits k n r * isqrt_bits k n r \<le> n
         \<and> n < (isqrt_bits k n r + 1) * (isqrt_bits k n r + 1)"
  using assms
proof (induction k arbitrary: r)
  case 0
  then show ?case by simp
next
  case (Suc k)
  show ?case
  proof (cases "(r + 2 ^ k) * (r + 2 ^ k) \<le> n")
    case True
    have "0 \<le> r + 2 ^ k" using Suc.prems(1) by simp
    moreover have "n < (r + 2 ^ k + 2 ^ k) * (r + 2 ^ k + 2 ^ k)"
      using Suc.prems(3) by (simp add: algebra_simps)
    ultimately show ?thesis using Suc.IH[of "r + 2 ^ k"] True by simp
  next
    case False
    then have "n < (r + 2 ^ k) * (r + 2 ^ k)" by simp
    with Suc.IH[of r] Suc.prems(1,2) False show ?thesis by simp
  qed
qed

lemma isqrt_correct:
  assumes "0 \<le> n"
  shows "0 \<le> isqrt n \<and> isqrt n * isqrt n \<le> n \<and> n < (isqrt n + 1) * (isqrt n + 1)"
proof -
  let ?k = "nat (bitlen n)"
  have "n < (0 + 2 ^ ?k) * (0 + 2 ^ ?k)"
  proof (cases "n = 0")
    case True
    then show ?thesis by simp
  next
    case False
    with assms have "0 < n" by simp
    then have "n < 2 ^ ?k" using bitlen_bounds[of n] by simp
    moreover have "(1::int) \<le> 2 ^ ?k" by simp
    ultimately have "n * 1 < 2 ^ ?k * 2 ^ ?k"
      using assms by (intro mult_less_le_imp_less) auto
    then show ?thesis by simp
  qed
  with isqrt_bits_correct[of 0 n ?k] assms show ?thesis by (simp add: isqrt_def)
qed


lemma js_sqrt_significand:
  assumes "(2::rat) ^ 104 \<le> y"
  defines "s \<equiv> isqrt \<lfloor>y\<rfloor>"
  defines "c \<equiv> of_int (s * s + s) + 1 / 4"
  defines "m \<equiv> (if y < c then s else if y > c then s + 1 else if even s then s else s + 1)"
  shows "2 ^ 52 \<le> m" and "(of_int m - 1 / 2)\<^sup>2 \<le> y" and "y \<le> (of_int m + 1 / 2)\<^sup>2"
proof -
  have n104: "(2::int) ^ 104 \<le> \<lfloor>y\<rfloor>"
  proof -
    have "(of_int (2 ^ 104) :: rat) \<le> y" using assms(1) by simp
    then show ?thesis by (simp only: le_floor_iff)
  qed
  have "(0::int) \<le> 2 ^ 104" by simp
  then have n0: "0 \<le> \<lfloor>y\<rfloor>" using n104 by (rule order_trans)
  from isqrt_correct[OF n0]
  have s0: "0 \<le> s" and s1: "s * s \<le> \<lfloor>y\<rfloor>" and s2: "\<lfloor>y\<rfloor> < (s + 1) * (s + 1)"
    by (simp_all add: s_def)
  have s52: "2 ^ 52 \<le> s"
  proof (rule ccontr)
    assume "\<not> 2 ^ 52 \<le> s"
    then have "s + 1 \<le> 2 ^ 52" by simp
    then have "(s + 1) * (s + 1) \<le> 2 ^ 52 * 2 ^ 52"
      using s0 by (intro mult_mono) auto
    moreover have "(2::int) ^ 52 * 2 ^ 52 = 2 ^ 104" by simp
    ultimately have "(s + 1) * (s + 1) \<le> 2 ^ 104" by (simp only:)
    with s2 n104 show False by linarith
  qed
  have lo: "(of_int s)\<^sup>2 \<le> y"
  proof -
    have "(of_int (s * s) :: rat) \<le> of_int \<lfloor>y\<rfloor>" using s1 by (simp only: of_int_le_iff)
    also have "\<dots> \<le> y" by simp
    finally show ?thesis by (simp add: power2_eq_square)
  qed
  have hi: "y < (of_int s + 1)\<^sup>2"
  proof -
    have "\<lfloor>y\<rfloor> + 1 \<le> (s + 1) * (s + 1)" using s2 by simp
    then have "(of_int (\<lfloor>y\<rfloor> + 1) :: rat) \<le> of_int ((s + 1) * (s + 1))"
      by (simp only: of_int_le_iff)
    moreover have "y < of_int (\<lfloor>y\<rfloor> + 1)" by linarith
    ultimately have "y < of_int ((s + 1) * (s + 1))" by linarith
    then show ?thesis by (simp add: power2_eq_square)
  qed
  have c: "c = (of_int s + 1 / 2)\<^sup>2"
    by (simp add: c_def power2_eq_square algebra_simps)
  have spos: "(0::rat) \<le> of_int s" using s0 by simp
  have below: "(of_int s - 1 / 2)\<^sup>2 \<le> (of_int s :: rat)\<^sup>2"
  proof -
    have "(1::rat) / 2 \<le> of_int s"
    proof -
      have "(of_int (2 ^ 52) :: rat) \<le> of_int s" using s52 by (simp only: of_int_le_iff)
      then show ?thesis by simp
    qed
    then have "0 \<le> (of_int s :: rat) - 1 / 2" "(of_int s :: rat) - 1 / 2 \<le> of_int s" by simp_all
    then show ?thesis by (rule power_mono[rotated])
  qed
  have above: "(of_int s + 1 :: rat)\<^sup>2 \<le> (of_int (s + 1) + 1 / 2)\<^sup>2"
    using spos by (intro power_mono) simp_all
  have mcases: "m = s \<and> y \<le> c \<or> m = s + 1 \<and> c \<le> y"
    by (cases "y < c"; cases "y > c") (auto simp: m_def)
  then have "(of_int m - 1 / 2)\<^sup>2 \<le> y \<and> y \<le> (of_int m + 1 / 2)\<^sup>2"
  proof
    assume 1: "m = s \<and> y \<le> c"
    then have ms: "m = s" and yc: "y \<le> c" by simp_all
    from lo below have "(of_int m - 1 / 2)\<^sup>2 \<le> y" unfolding ms by linarith
    moreover from yc have "y \<le> (of_int m + 1 / 2)\<^sup>2" unfolding ms c .
    ultimately show ?thesis by simp
  next
    assume 2: "m = s + 1 \<and> c \<le> y"
    then have ms: "m = s + 1" and cy: "c \<le> y" by simp_all
    have "(of_int m - 1 / 2 :: rat) = of_int s + 1 / 2" unfolding ms by simp
    then have a: "(of_int m - 1 / 2 :: rat)\<^sup>2 = c" unfolding c by (rule arg_cong)
    have b: "(of_int s + 1 :: rat)\<^sup>2 \<le> (of_int m + 1 / 2)\<^sup>2"
      using above unfolding ms .
    from a cy have "(of_int m - 1 / 2)\<^sup>2 \<le> y" by simp
    moreover from hi b have "y \<le> (of_int m + 1 / 2)\<^sup>2" by linarith
    ultimately show ?thesis by simp
  qed
  then show "(of_int m - 1 / 2)\<^sup>2 \<le> y" and "y \<le> (of_int m + 1 / 2)\<^sup>2" by simp_all
  from mcases s52 show "2 ^ 52 \<le> m" by auto
qed


text \<open>The square of the rounded root is the argument up to the relative error of one rounding.\<close>

lemma js_sqrt_bounds:
  assumes "0 < x"
  shows "0 < js_sqrt x"
    and "(js_sqrt x)\<^sup>2 * (1 - 1 / 2 ^ 53)\<^sup>2 \<le> x"
    and "x \<le> (js_sqrt x)\<^sup>2 * (1 + 1 / 2 ^ 53)\<^sup>2"
proof -
  define h where "h = expo x div 2"
  define P where "P = pow2 (h - 52)"
  define Q where "Q = pow2 (2 * (h - 52))"
  define y where "y = x / Q"
  define s where "s = isqrt \<lfloor>y\<rfloor>"
  define c :: rat where "c = of_int (s * s + s) + 1 / 4"
  define m where "m = (if y < c then s else if y > c then s + 1 else if even s then s else s + 1)"
  have Ppos: "0 < P" and Qpos: "0 < Q" by (simp_all add: P_def Q_def)
  have "2 * (h - 52) = (h - 52) + (h - 52)" by simp
  then have "Q = pow2 ((h - 52) + (h - 52))" unfolding Q_def by (rule arg_cong)
  then have QP: "Q = P * P" unfolding P_def by (simp only: pow2_add)
  have r: "js_sqrt x = of_int m * P"
    using assms by (simp add: js_sqrt_def Let_def h_def P_def Q_def y_def s_def c_def m_def)
  have xy: "x = y * Q" using Qpos by (simp add: y_def)
  have y104: "2 ^ 104 \<le> y"
  proof -
    have "2 * h \<le> expo x" unfolding h_def by simp
    then have "pow2 (2 * h) \<le> pow2 (expo x)" by (rule pow2_mono)
    also have "\<dots> \<le> x" using expo_bounds[OF assms] by simp
    finally have "pow2 (2 * h) \<le> x" .
    moreover have "pow2 (2 * h) = 2 ^ 104 * Q"
    proof -
      have "2 * h = 104 + 2 * (h - 52)" by simp
      then have "pow2 (2 * h) = pow2 (104 + 2 * (h - 52))" by (rule arg_cong)
      also have "\<dots> = pow2 104 * Q" unfolding Q_def by (rule pow2_add)
      also have "pow2 104 = 2 ^ 104" by (simp add: pow2_def)
      finally show ?thesis .
    qed
    ultimately have "2 ^ 104 * Q \<le> x" by simp
    then show ?thesis unfolding y_def using Qpos by (simp add: pos_le_divide_eq)
  qed
  note sig = js_sqrt_significand[OF y104, folded s_def, folded c_def, folded m_def]
  have m52: "(2::rat) ^ 52 \<le> of_int m"
  proof -
    have "(of_int (2 ^ 52) :: rat) \<le> of_int m" using sig(1) by (simp only: of_int_le_iff)
    then show ?thesis by simp
  qed
  then have mpos: "(0::rat) < of_int m"
    by (rule less_le_trans[rotated]) simp
  with Ppos show "0 < js_sqrt x" unfolding r by simp
  have half: "1 / 2 \<le> of_int m * (1 / 2 ^ 53 :: rat)"
  proof -
    have "(1::rat) / 2 = 2 ^ 52 * (1 / 2 ^ 53)" by simp
    also have "\<dots> \<le> of_int m * (1 / 2 ^ 53)"
      by (rule mult_right_mono[OF m52]) simp
    finally show ?thesis .
  qed
  have sq: "(js_sqrt x)\<^sup>2 = (of_int m)\<^sup>2 * Q"
    unfolding r QP by (simp add: power2_eq_square)
  have lo: "((of_int m :: rat) * (1 - 1 / 2 ^ 53))\<^sup>2 \<le> (of_int m - 1 / 2)\<^sup>2"
  proof (rule power_mono)
    show "(of_int m :: rat) * (1 - 1 / 2 ^ 53) \<le> of_int m - 1 / 2"
      using half by (simp add: right_diff_distrib)
    show "0 \<le> (of_int m :: rat) * (1 - 1 / 2 ^ 53)"
      using mpos by simp
  qed
  have hi: "(of_int m + 1 / 2 :: rat)\<^sup>2 \<le> (of_int m * (1 + 1 / 2 ^ 53))\<^sup>2"
  proof (rule power_mono)
    show "(of_int m :: rat) + 1 / 2 \<le> of_int m * (1 + 1 / 2 ^ 53)"
      using half by (simp add: distrib_left)
    show "0 \<le> (of_int m :: rat) + 1 / 2" using mpos by simp
  qed
  have "(js_sqrt x)\<^sup>2 * (1 - 1 / 2 ^ 53)\<^sup>2 = ((of_int m :: rat) * (1 - 1 / 2 ^ 53))\<^sup>2 * Q"
    unfolding sq power_mult_distrib by (simp only: mult_ac)
  also have "\<dots> \<le> y * Q"
    using lo sig(2) Qpos by (intro mult_right_mono) simp_all
  finally show "(js_sqrt x)\<^sup>2 * (1 - 1 / 2 ^ 53)\<^sup>2 \<le> x" unfolding xy .
  have "y * Q \<le> ((of_int m :: rat) * (1 + 1 / 2 ^ 53))\<^sup>2 * Q"
    using hi sig(3) Qpos by (intro mult_right_mono) simp_all
  also have "\<dots> = (js_sqrt x)\<^sup>2 * (1 + 1 / 2 ^ 53)\<^sup>2"
    unfolding sq power_mult_distrib by (simp only: mult_ac)
  finally show "x \<le> (js_sqrt x)\<^sup>2 * (1 + 1 / 2 ^ 53)\<^sup>2" unfolding xy .
qed

subsection \<open>Cosine similarity\<close>

text \<open>Two vectors without a common feature have dot product 0, hence similarity 0.\<close>

lemma dot_zero_if_disjoint:
  assumes "\<forall>k \<in> set ks. vget0 v k = 0 \<or> vget0 w k = 0"
  shows "fst (fold (sim_step v w) ks (0, n1, n2)) = 0"
  using assms
proof (induction ks arbitrary: n1 n2)
  case Nil
  show ?case by simp
next
  case (Cons k ks)
  from Cons.prems have "vget0 v k = 0 \<or> vget0 w k = 0" by simp
  then have "sim_step v w k (0, n1, n2)
      = (0, js_add n1 (js_mul (of_nat (vget0 v k)) (of_nat (vget0 v k))),
            js_add n2 (js_mul (of_nat (vget0 w k)) (of_nat (vget0 w k))))"
    by (auto simp: sim_step_def Let_def)
  with Cons show ?case by simp
qed

lemma cosineSimilarity_disjoint:
  assumes "\<forall>k \<in> set (allWords v w). vget0 v k = 0 \<or> vget0 w k = 0"
  shows "cosineSimilarity v w = 0"
  using dot_zero_if_disjoint[OF assms, of 0 0]
  by (simp add: cosineSimilarity_def Let_def)

lemma js_set_of_fold:
  "distinct acc \<Longrightarrow>
     distinct (fold (\<lambda>k acc. if k \<in> set acc then acc else acc @ [k]) ks acc)
     \<and> set (fold (\<lambda>k acc. if k \<in> set acc then acc else acc @ [k]) ks acc) = set acc \<union> set ks"
  by (induction ks arbitrary: acc) auto

lemma distinct_allWords: "distinct (allWords a b)"
  unfolding allWords_def js_set_of_def
  using js_set_of_fold[of "[]" "map fst a @ map fst b"] by simp

lemma set_allWords: "set (allWords a b) = fst ` set a \<union> fst ` set b"
  unfolding allWords_def js_set_of_def
  using js_set_of_fold[of "[]" "map fst a @ map fst b"] by simp

lemma vget0_outside: "k \<notin> fst ` set a \<Longrightarrow> vget0 a k = 0"
  by (simp add: vget0_def map_of_eq_None_iff[symmetric])

lemma fold_sim_step_exact:
  assumes "d + sum_list (map (\<lambda>k. vget0 a k * vget0 b k) ks) \<le> 2 ^ 53"
    and "n1 + sum_list (map (\<lambda>k. vget0 a k * vget0 a k) ks) \<le> 2 ^ 53"
    and "n2 + sum_list (map (\<lambda>k. vget0 b k * vget0 b k) ks) \<le> 2 ^ 53"
  shows "fold (sim_step a b) ks (of_nat d, of_nat n1, of_nat n2) =
           (of_nat (d + sum_list (map (\<lambda>k. vget0 a k * vget0 b k) ks)),
            of_nat (n1 + sum_list (map (\<lambda>k. vget0 a k * vget0 a k) ks)),
            of_nat (n2 + sum_list (map (\<lambda>k. vget0 b k * vget0 b k) ks)))"
  using assms
proof (induction ks arbitrary: d n1 n2)
  case Nil
  show ?case by simp
next
  case (Cons k ks)
  let ?x = "vget0 a k" and ?y = "vget0 b k"
  from Cons.prems have b: "?x * ?y \<le> 2 ^ 53" "d + ?x * ?y \<le> 2 ^ 53"
    "?x * ?x \<le> 2 ^ 53" "n1 + ?x * ?x \<le> 2 ^ 53"
    "?y * ?y \<le> 2 ^ 53" "n2 + ?y * ?y \<le> 2 ^ 53"
    by simp_all
  have step: "sim_step a b k (of_nat d, of_nat n1, of_nat n2)
      = (of_nat (d + ?x * ?y), of_nat (n1 + ?x * ?x), of_nat (n2 + ?y * ?y))"
    unfolding sim_step_def Let_def fst_conv snd_conv
      js_mul_of_nat[OF b(1)] js_mul_of_nat[OF b(3)] js_mul_of_nat[OF b(5)]
      js_add_of_nat[OF b(2)] js_add_of_nat[OF b(4)] js_add_of_nat[OF b(6)] ..
  have "fold (sim_step a b) (k # ks) (of_nat d, of_nat n1, of_nat n2)
      = fold (sim_step a b) ks (of_nat (d + ?x * ?y), of_nat (n1 + ?x * ?x), of_nat (n2 + ?y * ?y))"
    by (simp add: step)
  also have "\<dots> = (of_nat (d + ?x * ?y + sum_list (map (\<lambda>k. vget0 a k * vget0 b k) ks)),
            of_nat (n1 + ?x * ?x + sum_list (map (\<lambda>k. vget0 a k * vget0 a k) ks)),
            of_nat (n2 + ?y * ?y + sum_list (map (\<lambda>k. vget0 b k * vget0 b k) ks)))"
    using Cons.prems by (intro Cons.IH) (simp_all add: add.assoc)
  finally show ?case by (simp add: add.assoc)
qed

text \<open>The Cauchy-Schwarz inequality, one more term at a time.\<close>

lemma cauchy_schwarz_step:
  fixes D A B x y :: rat
  assumes "0 \<le> D" "0 \<le> A" "0 \<le> B" "0 \<le> x" "0 \<le> y" and "D\<^sup>2 \<le> A * B"
  shows "(D + x * y)\<^sup>2 \<le> (A + x * x) * (B + y * y)"
proof -
  let ?X = "A * (y * y)" and ?Y = "B * (x * x)"
  have "0 \<le> (?X - ?Y)\<^sup>2" by simp
  then have "4 * (?X * ?Y) \<le> (?X + ?Y)\<^sup>2"
    by (simp add: power2_eq_square algebra_simps)
  moreover have "(2 * D * (x * y))\<^sup>2 = 4 * (D\<^sup>2 * ((x * x) * (y * y)))"
    by (simp add: power2_eq_square algebra_simps)
  moreover have "D\<^sup>2 * ((x * x) * (y * y)) \<le> (A * B) * ((x * x) * (y * y))"
    by (rule mult_right_mono[OF assms(6)]) simp
  moreover have "(A * B) * ((x * x) * (y * y)) = ?X * ?Y" by (simp add: algebra_simps)
  ultimately have "(2 * D * (x * y))\<^sup>2 \<le> (?X + ?Y)\<^sup>2" by linarith
  moreover have "0 \<le> ?X + ?Y" using assms by simp
  ultimately have "2 * D * (x * y) \<le> ?X + ?Y" by (rule power2_le_imp_le)
  moreover have "(D + x * y)\<^sup>2 = D\<^sup>2 + 2 * D * (x * y) + (x * x) * (y * y)"
    by (simp add: power2_eq_square algebra_simps)
  moreover have "(A + x * x) * (B + y * y) = A * B + (?X + ?Y) + (x * x) * (y * y)"
    by (simp add: algebra_simps)
  ultimately show ?thesis using assms(6) by linarith
qed

lemma cauchy_schwarz_list:
  fixes f g :: "'a \<Rightarrow> nat"
  shows "(sum_list (map (\<lambda>k. f k * g k) ks))\<^sup>2
           \<le> sum_list (map (\<lambda>k. f k * f k) ks) * sum_list (map (\<lambda>k. g k * g k) ks)"
proof (induction ks)
  case Nil
  show ?case by simp
next
  case (Cons k ks)
  let ?D = "sum_list (map (\<lambda>k. f k * g k) ks)"
  let ?A = "sum_list (map (\<lambda>k. f k * f k) ks)"
  let ?B = "sum_list (map (\<lambda>k. g k * g k) ks)"
  have "(of_nat (?D\<^sup>2) :: rat) \<le> of_nat (?A * ?B)"
    using Cons.IH by (simp only: of_nat_le_iff)
  then have "(of_nat ?D :: rat)\<^sup>2 \<le> of_nat ?A * of_nat ?B" by simp
  then have "(of_nat ?D + of_nat (f k) * of_nat (g k) :: rat)\<^sup>2
      \<le> (of_nat ?A + of_nat (f k) * of_nat (f k)) * (of_nat ?B + of_nat (g k) * of_nat (g k))"
    by (intro cauchy_schwarz_step) simp_all
  then have "(of_nat ((?D + f k * g k)\<^sup>2) :: rat)
      \<le> of_nat ((?A + f k * f k) * (?B + g k * g k))" by simp
  then have "(?D + f k * g k)\<^sup>2 \<le> (?A + f k * f k) * (?B + g k * g k)"
    by (simp only: of_nat_le_iff)
  then show ?case by (simp add: add.commute)
qed

lemma js_mul_commute: "js_mul a b = js_mul b a"
  by (simp add: js_mul_def mult.commute)

lemma quotient_nonneg:
  assumes "0 \<le> D" and "0 < N1" and "0 < N2"
  shows "0 \<le> js_div D (js_mul (js_sqrt N1) (js_sqrt N2))"
proof -
  have "0 < js_sqrt N1 * js_sqrt N2"
    using js_sqrt_bounds(1)[OF assms(2)] js_sqrt_bounds(1)[OF assms(3)] by simp
  then have "0 < js_mul (js_sqrt N1) (js_sqrt N2)" unfolding js_mul_def by (rule fl_pos)
  with assms(1) have "0 \<le> D / js_mul (js_sqrt N1) (js_sqrt N2)" by simp
  then show ?thesis unfolding js_div_def by (rule fl_nonneg)
qed

lemma quotient_upper:
  assumes "0 \<le> D" and "0 < N1" and "0 < N2" and "D\<^sup>2 \<le> N1 * N2"
  shows "js_div D (js_mul (js_sqrt N1) (js_sqrt N2)) \<le> 1 + 1 / 2 ^ 50"
proof (cases "D = 0")
  case True
  then show ?thesis by simp
next
  case False
  with assms(1) have Dpos: "0 < D" by simp
  define u :: rat where "u = 1 / 2 ^ 53"
  define s1 where "s1 = js_sqrt N1"
  define s2 where "s2 = js_sqrt N2"
  define p where "p = js_mul s1 s2"
  have u: "0 < 1 - u" "0 < 1 + u" by (simp_all add: u_def)
  have s: "0 < s1" "0 < s2"
    using js_sqrt_bounds(1)[OF assms(2)] js_sqrt_bounds(1)[OF assms(3)]
    by (simp_all add: s1_def s2_def)
  have b1: "N1 \<le> s1\<^sup>2 * (1 + u)\<^sup>2" and b2: "N2 \<le> s2\<^sup>2 * (1 + u)\<^sup>2"
    using js_sqrt_bounds(3)[OF assms(2)] js_sqrt_bounds(3)[OF assms(3)]
    by (simp_all add: s1_def s2_def u_def)
  have qpos: "0 < s1 * s2" using s by simp
  have ppos: "0 < p" unfolding p_def js_mul_def using qpos by (rule fl_pos)
  have plow: "(s1 * s2) * (1 - u) \<le> p"
    unfolding p_def js_mul_def u_def using qpos by (rule fl_lower)
  have "D\<^sup>2 \<le> N1 * N2" by (rule assms(4))
  also have "\<dots> \<le> (s1\<^sup>2 * (1 + u)\<^sup>2) * (s2\<^sup>2 * (1 + u)\<^sup>2)"
    using b1 b2 assms(2,3) by (intro mult_mono) simp_all
  also have "\<dots> = ((s1 * s2) * (1 + u)\<^sup>2)\<^sup>2"
    by (simp add: power2_eq_square algebra_simps)
  finally have "D\<^sup>2 \<le> ((s1 * s2) * (1 + u)\<^sup>2)\<^sup>2" .
  moreover have "0 \<le> (s1 * s2) * (1 + u)\<^sup>2" using qpos by simp
  ultimately have D1: "D \<le> (s1 * s2) * (1 + u)\<^sup>2" by (rule power2_le_imp_le)
  have "(s1 * s2) * (1 + u)\<^sup>2 = ((s1 * s2) * (1 - u)) * ((1 + u)\<^sup>2 / (1 - u))"
    using u by simp
  also have "\<dots> \<le> p * ((1 + u)\<^sup>2 / (1 - u))"
    using plow u by (intro mult_right_mono) simp_all
  finally have "D \<le> p * ((1 + u)\<^sup>2 / (1 - u))" using D1 by linarith
  then have t: "D / p \<le> (1 + u)\<^sup>2 / (1 - u)"
    using ppos by (simp add: pos_divide_le_eq mult.commute)
  have tpos: "0 < D / p" using Dpos ppos by simp
  have "js_div D p \<le> (D / p) * (1 + u)"
    unfolding js_div_def u_def using tpos by (rule fl_upper)
  also have "\<dots> \<le> ((1 + u)\<^sup>2 / (1 - u)) * (1 + u)"
    using t u by (intro mult_right_mono) simp_all
  also have "\<dots> \<le> 1 + 1 / 2 ^ 50"
    unfolding u_def by (simp add: power2_eq_square)
  finally show ?thesis unfolding p_def s1_def s2_def .
qed

lemma self_quotient_lower:
  assumes "0 < N"
  shows "1 - 1 / 2 ^ 50 \<le> js_div N (js_mul (js_sqrt N) (js_sqrt N))"
proof -
  define u :: rat where "u = 1 / 2 ^ 53"
  define s where "s = js_sqrt N"
  define p where "p = js_mul s s"
  have u: "0 < 1 - u" "0 < 1 + u" by (simp_all add: u_def)
  have spos: "0 < s" using js_sqrt_bounds(1)[OF assms] by (simp add: s_def)
  have b: "s\<^sup>2 * (1 - u)\<^sup>2 \<le> N"
    using js_sqrt_bounds(2)[OF assms] by (simp add: s_def u_def)
  have qpos: "0 < s * s" using spos by simp
  have ppos: "0 < p" unfolding p_def js_mul_def using qpos by (rule fl_pos)
  have "p \<le> (s * s) * (1 + u)"
    unfolding p_def js_mul_def u_def using qpos by (rule fl_upper)
  then have "p * (1 - u)\<^sup>2 \<le> ((s * s) * (1 + u)) * (1 - u)\<^sup>2"
    by (intro mult_right_mono) simp_all
  also have "\<dots> = (s\<^sup>2 * (1 - u)\<^sup>2) * (1 + u)"
    by (simp add: power2_eq_square algebra_simps)
  also have "\<dots> \<le> N * (1 + u)"
    using b u by (intro mult_right_mono) simp_all
  finally have "p * ((1 - u)\<^sup>2 / (1 + u)) \<le> N"
    using u by (simp add: pos_divide_le_eq algebra_simps)
  then have t: "(1 - u)\<^sup>2 / (1 + u) \<le> N / p"
    using ppos by (simp add: pos_le_divide_eq mult.commute)
  have tpos: "0 < N / p" using assms ppos by simp
  have "1 - 1 / 2 ^ 50 \<le> ((1 - u)\<^sup>2 / (1 + u)) * (1 - u)"
    unfolding u_def by (simp add: power2_eq_square)
  also have "\<dots> \<le> (N / p) * (1 - u)"
    using t u by (intro mult_right_mono) simp_all
  also have "\<dots> \<le> js_div N p"
    unfolding js_div_def u_def using tpos by (rule fl_lower)
  finally show ?thesis unfolding p_def s_def .
qed


lemma sum_list_allWords:
  "sum_list (map f (allWords a b)) = (\<Sum>k \<in> fst ` set a \<union> fst ` set b. f k)"
  using sum_list_distinct_conv_sum_set[OF distinct_allWords, of f a b]
  by (simp add: set_allWords)

lemma sum_allWords_left:
  "sum_list (map (\<lambda>k. vget0 a k * vget0 a k) (allWords a b)) = sq_norm a"
  unfolding sum_list_allWords sq_norm_def
  by (rule sum.mono_neutral_right) (auto simp: vget0_outside)

lemma sum_allWords_right:
  "sum_list (map (\<lambda>k. vget0 b k * vget0 b k) (allWords a b)) = sq_norm b"
  unfolding sum_list_allWords sq_norm_def
  by (rule sum.mono_neutral_right) (auto simp: vget0_outside)

lemma sum_allWords_dot:
  "sum_list (map (\<lambda>k. vget0 a k * vget0 b k) (allWords a b)) = dot_product a b"
  unfolding sum_list_allWords dot_product_def ..

lemma dot_product_commute: "dot_product a b = dot_product b a"
  by (simp add: dot_product_def Un_commute mult.commute)

lemma dot_product_le: "dot_product a b \<le> sq_norm a + sq_norm b"
proof -
  have t: "x * y \<le> x * x + y * y" for x y :: nat
    by (cases "x \<le> y") (auto intro: trans_le_add1 trans_le_add2 mult_le_mono)
  have "sum_list (map (\<lambda>k. vget0 a k * vget0 b k) (allWords a b))
      \<le> sum_list (map (\<lambda>k. vget0 a k * vget0 a k + vget0 b k * vget0 b k) (allWords a b))"
    by (rule sum_list_mono) (rule t)
  also have "\<dots> = sum_list (map (\<lambda>k. vget0 a k * vget0 a k) (allWords a b))
      + sum_list (map (\<lambda>k. vget0 b k * vget0 b k) (allWords a b))"
    by (rule sum_list_addf)
  finally show ?thesis
    unfolding sum_allWords_dot sum_allWords_left sum_allWords_right .
qed

lemma dot_product_cauchy_schwarz: "(dot_product a b)\<^sup>2 \<le> sq_norm a * sq_norm b"
  using cauchy_schwarz_list[of "vget0 a" "vget0 b" "allWords a b"]
  unfolding sum_allWords_dot sum_allWords_left sum_allWords_right .

lemma dot_product_self: "dot_product a a = sq_norm a"
  by (simp add: dot_product_def sq_norm_def)

text \<open>Below \<open>2\<^sup>5\<^sup>3\<close> the three sums of \<^verbatim>\<open>cosineSimilarity\<close> are exact.\<close>

lemma cosineSimilarity_exact:
  assumes "sq_norm a + sq_norm b \<le> 2 ^ 53"
  shows "cosineSimilarity a b =
           (if sq_norm a = 0 \<or> sq_norm b = 0 then 0
            else js_div (of_nat (dot_product a b))
                   (js_mul (js_sqrt (of_nat (sq_norm a))) (js_sqrt (of_nat (sq_norm b)))))"
proof -
  have d: "dot_product a b \<le> 2 ^ 53" using dot_product_le[of a b] assms by linarith
  have "fold (sim_step a b) (allWords a b) (of_nat 0, of_nat 0, of_nat 0) =
     (of_nat (0 + sum_list (map (\<lambda>k. vget0 a k * vget0 b k) (allWords a b))),
      of_nat (0 + sum_list (map (\<lambda>k. vget0 a k * vget0 a k) (allWords a b))),
      of_nat (0 + sum_list (map (\<lambda>k. vget0 b k * vget0 b k) (allWords a b))))"
    using assms d
    by (intro fold_sim_step_exact)
       (simp_all add: sum_allWords_dot sum_allWords_left sum_allWords_right)
  then have "fold (sim_step a b) (allWords a b) (0, 0, 0) =
     (of_nat (dot_product a b), of_nat (sq_norm a), of_nat (sq_norm b))"
    by (simp add: sum_allWords_dot sum_allWords_left sum_allWords_right)
  then show ?thesis by (simp add: cosineSimilarity_def Let_def)
qed

lemma sq_norm_zero: "sq_norm a = 0 \<Longrightarrow> vget0 a k = 0"
proof (cases "k \<in> fst ` set a")
  case True
  assume "sq_norm a = 0"
  then have "\<forall>k \<in> fst ` set a. vget0 a k * vget0 a k = 0"
    by (simp add: sq_norm_def)
  then have "vget0 a k * vget0 a k = 0" using True by (rule bspec)
  then show ?thesis by simp
next
  case False
  then show ?thesis by (rule vget0_outside)
qed

text \<open>
  C4 (amended). \<^verbatim>\<open>cosineSimilarity\<close> is 0 whenever either vector's magnitude is 0. For
  feature vectors whose squared magnitudes sum to at most \<open>2\<^sup>5\<^sup>3\<close> (the three sums of the
  loop are then exact) it is symmetric, at least 0 and at most \<open>1 + 2\<^sup>-\<^sup>5\<^sup>0\<close>, and for a
  non-zero vector against itself at least \<open>1 - 2\<^sup>-\<^sup>5\<^sup>0\<close>: the square roots, their product
  and the quotient are each rounded to a double, so the result can differ from 1, in either
  direction, by a few units in the last place.
\<close>

theorem cosineSimilarity_rounded:
  "(sq_norm a = 0 \<or> sq_norm b = 0 \<longrightarrow> cosineSimilarity a b = 0)
   \<and> (sq_norm a + sq_norm b \<le> 2 ^ 53 \<longrightarrow>
        cosineSimilarity a b = cosineSimilarity b a
        \<and> 0 \<le> cosineSimilarity a b
        \<and> cosineSimilarity a b \<le> 1 + 1 / 2 ^ 50
        \<and> (a = b \<and> sq_norm a \<noteq> 0 \<longrightarrow> 1 - 1 / 2 ^ 50 \<le> cosineSimilarity a b))"
proof (intro conjI impI)
  assume z: "sq_norm a = 0 \<or> sq_norm b = 0"
  have "\<forall>k \<in> set (allWords a b). vget0 a k = 0 \<or> vget0 b k = 0"
  proof
    fix k
    from z show "vget0 a k = 0 \<or> vget0 b k = 0"
    proof
      assume "sq_norm a = 0"
      then have "vget0 a k = 0" by (rule sq_norm_zero)
      then show ?thesis ..
    next
      assume "sq_norm b = 0"
      then have "vget0 b k = 0" by (rule sq_norm_zero)
      then show ?thesis ..
    qed
  qed
  then show "cosineSimilarity a b = 0" by (rule cosineSimilarity_disjoint)
next
  assume assms: "sq_norm a + sq_norm b \<le> 2 ^ 53"
  then have assms': "sq_norm b + sq_norm a \<le> 2 ^ 53" by (simp add: add.commute)
  show "cosineSimilarity a b = cosineSimilarity b a"
    unfolding cosineSimilarity_exact[OF assms] cosineSimilarity_exact[OF assms']
    by (auto simp: dot_product_commute js_mul_commute)
next
  assume assms: "sq_norm a + sq_norm b \<le> 2 ^ 53"
  have pos: "(0::rat) < of_nat (sq_norm a)" "(0::rat) < of_nat (sq_norm b)"
    if "\<not> (sq_norm a = 0 \<or> sq_norm b = 0)"
    using that by simp_all
  show "0 \<le> cosineSimilarity a b"
    unfolding cosineSimilarity_exact[OF assms]
    using quotient_nonneg[of "of_nat (dot_product a b)" "of_nat (sq_norm a)" "of_nat (sq_norm b)"] pos
    by auto
next
  assume assms: "sq_norm a + sq_norm b \<le> 2 ^ 53"
  have pos: "(0::rat) < of_nat (sq_norm a)" "(0::rat) < of_nat (sq_norm b)"
    if "\<not> (sq_norm a = 0 \<or> sq_norm b = 0)"
    using that by simp_all
  have cs: "(of_nat (dot_product a b) :: rat)\<^sup>2 \<le> of_nat (sq_norm a) * of_nat (sq_norm b)"
  proof -
    have "(of_nat ((dot_product a b)\<^sup>2) :: rat) \<le> of_nat (sq_norm a * sq_norm b)"
      using dot_product_cauchy_schwarz[of a b] by (simp only: of_nat_le_iff)
    then show ?thesis by simp
  qed
  show "cosineSimilarity a b \<le> 1 + 1 / 2 ^ 50"
    unfolding cosineSimilarity_exact[OF assms]
    using quotient_upper[of "of_nat (dot_product a b)" "of_nat (sq_norm a)" "of_nat (sq_norm b)"] pos cs
    by auto
next
  assume assms: "sq_norm a + sq_norm b \<le> 2 ^ 53" and that: "a = b \<and> sq_norm a \<noteq> 0"
  from that have ab: "a = b" by simp
  with that have nz: "sq_norm b \<noteq> 0" by simp
  have "(0::rat) < of_nat (sq_norm b)" using nz by simp
  then have l: "1 - 1 / 2 ^ 50 \<le> js_div (of_nat (sq_norm b))
      (js_mul (js_sqrt (of_nat (sq_norm b))) (js_sqrt (of_nat (sq_norm b))))"
    by (rule self_quotient_lower)
  have "cosineSimilarity a b = js_div (of_nat (sq_norm b))
      (js_mul (js_sqrt (of_nat (sq_norm b))) (js_sqrt (of_nat (sq_norm b))))"
    unfolding cosineSimilarity_exact[OF assms] using nz
    by (simp add: ab dot_product_self)
  with l show "1 - 1 / 2 ^ 50 \<le> cosineSimilarity a b" by (simp only:)
qed
theorem cosineSimilarity_rounded_witness:
  "sq_norm [(''dormant'', 1), (''mentee'', 1)] + sq_norm [(''mentee'', 2), (''quiet'', 1)] \<le> 2 ^ 53
   \<and> cosineSimilarity [(''dormant'', 1), (''mentee'', 1)] [(''mentee'', 2), (''quiet'', 1)]
       = cosineSimilarity [(''mentee'', 2), (''quiet'', 1)] [(''dormant'', 1), (''mentee'', 1)]
   \<and> 0 \<le> cosineSimilarity [(''dormant'', 1), (''mentee'', 1)] [(''mentee'', 2), (''quiet'', 1)]
   \<and> cosineSimilarity [(''dormant'', 1), (''mentee'', 1)] [(''mentee'', 2), (''quiet'', 1)]
       \<le> 1 + 1 / 2 ^ 50"
proof -
  have n: "sq_norm [(''dormant'', 1), (''mentee'', 1)] = 2"
    "sq_norm [(''mentee'', 2), (''quiet'', 1)] = 5"
    by (simp_all add: sq_norm_def vget0_def)
  have h: "sq_norm [(''dormant'', 1), (''mentee'', 1)]
      + sq_norm [(''mentee'', 2), (''quiet'', 1)] \<le> 2 ^ 53" unfolding n by simp
  from cosineSimilarity_rounded[of "[(''dormant'', 1), (''mentee'', 1)]"
      "[(''mentee'', 2), (''quiet'', 1)]"] h
  show ?thesis by blast
qed

lemma sim_of_three: "js_div 3 (js_mul (js_sqrt 3) (js_sqrt 3)) = 1 + 1 / 2 ^ 52"
  by code_simp

theorem cosineSimilarity_self_not_one_counterexample:
  "vectorise ''dormant mentee'' = [(''dormant'', 1), (''mentee'', 1), (''dormant_mentee'', 1)]
   \<and> cosineSimilarity (vectorise ''dormant mentee'') (vectorise ''dormant mentee'')
       = 1 + 1 / 2 ^ 52"
proof -
  define v :: fvec where "v = [(''dormant'', 1), (''mentee'', 1), (''dormant_mentee'', 1)]"
  have e: "vectorise ''dormant mentee'' = [(''dormant'', 1), (''mentee'', 1), (''dormant_mentee'', 1)]"
    by code_simp
  have n: "sq_norm v = 3"
    by (simp add: v_def sq_norm_def vget0_def)
  have d: "dot_product v v = 3"
    by (simp add: v_def dot_product_def vget0_def)
  have h: "sq_norm v + sq_norm v \<le> 2 ^ 53" unfolding n by simp
  have "cosineSimilarity v v = 1 + 1 / 2 ^ 52"
    unfolding cosineSimilarity_exact[OF h] n d using sim_of_three by simp
  then show ?thesis unfolding e v_def[symmetric] by simp
qed

subsection \<open>Ranking\<close>

lemma length_slice_to: "0 \<le> n \<Longrightarrow> length (slice_to n xs) = min (nat n) (length xs)"
  by (simp add: slice_to_def)

lemma length_slice_to_neg: "n < 0 \<Longrightarrow> length (slice_to n xs) = length xs - nat (- n)"
  by (simp add: slice_to_def)

lemma slice_to_append: "\<exists>rest. slice_to n xs @ rest = xs"
  unfolding slice_to_def by (rule exI, rule append_take_drop_id)

lemma sorted_desc_sort_key:
  "sorted_wrt (\<lambda>a b. score b \<le> score a) (sort_key (\<lambda>s. - score s) xs)"
proof -
  have "sorted (map (\<lambda>s. - score s) (sort_key (\<lambda>s. - score s) xs))"
    by (rule sorted_sort_key)
  then show ?thesis by (simp add: sorted_map)
qed

lemma stable_desc_sort_key:
  "filter (\<lambda>h. score h = v) (sort_key (\<lambda>s. - score s) xs) = filter (\<lambda>h. score h = v) xs"
proof -
  have "filter (\<lambda>h. - score h = - v) (sort_key (\<lambda>s. - score s) xs)
        = filter (\<lambda>h. - score h = - v) xs"
    by (rule sort_key_stable)
  then show ?thesis by simp
qed

text \<open>
  C5. For every query, document list and number \<open>k \<ge> 0\<close> of results asked for,
  \<^verbatim>\<open>findSimilar\<close> returns \<open>min k n\<close> of the \<open>n\<close> documents, so at most \<open>k\<close>, each with its
  cosine similarity to the query as score. The items returned are the first ones of a list
  that holds all scored documents in non-increasing order of score, the documents of any one
  score in their corpus order: the scores are non-increasing in output order, no document
  left out scores higher than one returned, and ties keep the corpus order. (A negative
  \<open>k\<close> makes \<^verbatim>\<open>slice(0, k)\<close> leave out the last \<open>- k\<close> items of that list.)
\<close>

theorem findSimilar_ranked:
  "(0 \<le> k \<longrightarrow> length (findSimilar query docs k) = min (nat k) (length docs))
   \<and> (k < 0 \<longrightarrow> length (findSimilar query docs k) = length docs - nat (- k))
   \<and> (\<exists>rest.
         sorted_wrt (\<lambda>a b. score b \<le> score a) (findSimilar query docs k @ rest)
         \<and> (\<forall>v. filter (\<lambda>h. score h = v) (findSimilar query docs k @ rest) =
                  filter (\<lambda>h. score h = v)
                    (map (\<lambda>d. \<lparr>sc_id = doc_id d,
                                score = cosineSimilarity (vectorise query) (vectorise (doc_text d)),
                                sc_text = doc_text d, sc_tags = doc_tags d\<rparr>) docs)))"
proof -
  let ?scores = "map (\<lambda>d. \<lparr>sc_id = doc_id d,
                                score = cosineSimilarity (vectorise query) (vectorise (doc_text d)),
                                sc_text = doc_text d, sc_tags = doc_tags d\<rparr>) docs"
  let ?sorted = "sort_key (\<lambda>s. - score s) ?scores"
  have sd: "score_doc (vectorise query) = (\<lambda>d. \<lparr>sc_id = doc_id d,
                                score = cosineSimilarity (vectorise query) (vectorise (doc_text d)),
                                sc_text = doc_text d, sc_tags = doc_tags d\<rparr>)"
    by (rule ext) (simp add: score_doc_def)
  have fs: "findSimilar query docs k = slice_to k ?sorted"
    by (simp add: findSimilar_def Let_def sd)
  have len: "length ?sorted = length docs" by simp
  have a: "0 \<le> k \<longrightarrow> length (findSimilar query docs k) = min (nat k) (length docs)"
    unfolding fs using length_slice_to[of k ?sorted] len by simp
  have b: "k < 0 \<longrightarrow> length (findSimilar query docs k) = length docs - nat (- k)"
    unfolding fs using length_slice_to_neg[of k ?sorted] len by simp
  from slice_to_append[of k ?sorted] obtain rest
    where r: "findSimilar query docs k @ rest = ?sorted" unfolding fs by blast
  have c: "sorted_wrt (\<lambda>a b. score b \<le> score a) (findSimilar query docs k @ rest)"
    unfolding r by (rule sorted_desc_sort_key)
  have d: "\<forall>v. filter (\<lambda>h. score h = v) (findSimilar query docs k @ rest) =
                  filter (\<lambda>h. score h = v) ?scores"
    unfolding r by (simp add: stable_desc_sort_key)
  from a b c d show ?thesis by blast
qed

theorem findSimilar_ranked_witness:
  "(0::int) \<le> 2 \<and> length (findSimilar ''zebra'' (map tip_document ex_tips) 2) = 2
   \<and> (- 1::int) < 0 \<and> length (findSimilar ''zebra'' (map tip_document ex_tips) (- 1)) = 2"
  using findSimilar_ranked[of 2 "''zebra''" "map tip_document ex_tips"]
        findSimilar_ranked[of "- 1" "''zebra''" "map tip_document ex_tips"]
  by (simp add: ex_tips_def)

subsection \<open>Tip retrieval\<close>

lemma length_findSimilar_2: "length (findSimilar q docs 2) = min 2 (length docs)"
  by (simp add: findSimilar_def Let_def slice_to_def)

lemma set_findSimilar:
  "set (findSimilar q docs k) \<subseteq> score_doc (vectorise q) ` set docs"
proof -
  have "set (findSimilar q docs k) \<subseteq> set (sort_key (\<lambda>s. - score s) (map (score_doc (vectorise q)) docs))"
    unfolding findSimilar_def Let_def slice_to_def by (rule set_take_subset)
  then show ?thesis by simp
qed

lemma to_hit_Some:
  assumes "r \<in> set (findSimilar q (map tip_document tips) k)"
  shows "to_hit tips r \<noteq> None"
proof -
  from assms set_findSimilar obtain t where t: "t \<in> set tips"
    and r: "r = score_doc (vectorise q) (tip_document t)" by fastforce
  then have "sc_id r = tip_id t" by (simp add: score_doc_def tip_document_def)
  with t have "find (\<lambda>t. tip_id t = sc_id r) tips \<noteq> None"
    by (auto simp: find_None_iff)
  then show ?thesis by (auto simp: to_hit_def split: option.splits)
qed

lemma retrieve_loaded:
  assumes "loadTips files = Inr tips"
  shows "retrieve files q
    = TipsResult (map (\<lambda>r. the (to_hit tips r)) (findSimilar q (map tip_document tips) 2))"
proof -
  have "list_all (\<lambda>r. to_hit tips r \<noteq> None) (findSimilar q (map tip_document tips) 2)"
    unfolding list_all_iff using to_hit_Some by blast
  with assms show ?thesis by (simp add: retrieve_def Let_def)
qed





subsection \<open>Engagement analytics\<close>






text \<open>The message pass changes the balance of an entry and nothing else.\<close>

lemma days_view_map_set_balance:
  "map_of stats k = Some s \<Longrightarrow> days_view (map_set stats k (s\<lparr>balance := b\<rparr>)) = days_view stats"
  by (induction stats) (auto simp: days_view_def)

lemma days_view_note_balance: "days_view (note_balance e stats) = days_view stats"
  by (simp add: note_balance_def days_view_map_set_balance split: option.splits)

lemma days_view_analyse_messages: "days_view (analyse_messages ms stats) = days_view stats"
proof -
  have "days_view (fold note_balance g stats) = days_view stats" for g
    by (induction g arbitrary: stats) (simp_all add: days_view_note_balance)
  then show ?thesis by (simp add: analyse_messages_def)
qed



lemma length_analyse_messages: "length (analyse_messages ms stats) = length stats"
  using arg_cong[OF days_view_analyse_messages[of ms stats], of length]
  by (simp add: days_view_def)





text \<open>
  C10. When the check-in file loads as an empty collection and the other three files load,
  \<^verbatim>\<open>run\<close> in summary mode (any mode but \<^verbatim>\<open>list\<close>) returns the summary with sample 0,
  dormant 0, balance "balanced" and last_checkin_days 0, whatever the messages, users and
  pairings contain.
\<close>

theorem summary_of_empty_checkins:
  assumes "loadCheckins files = Inr []" and "loadMessages files = Inr ms"
    and "loadUsers files = Inr us" and "loadPairings files = Inr ps"
    and "opt_mode options \<noteq> Some ''list''"
  shows "run files now options = SummaryResult 0 0 ''balanced'' 0"
proof -
  have "length (analyse_messages ms (analyse_checkins now [])) = 0"
    unfolding length_analyse_messages by (simp add: analyse_checkins_def)
  then have e: "analyse_messages ms (analyse_checkins now []) = []" by simp
  have m: "(case opt_mode options of None \<Rightarrow> ''summary''
            | Some m \<Rightarrow> if m = [] then ''summary'' else m) \<noteq> ''list''"
    using assms(5) by (auto split: option.splits)
  show ?thesis
    using assms(1-4) m
    by (simp add: run_def Let_def e dormantPairs_def overallBalance_def maxDays_def)
qed

theorem summary_of_empty_checkins_witness:
  "loadCheckins (ex_files\<lparr>loadCheckins := Inr []\<rparr>) = Inr []
   \<and> loadMessages (ex_files\<lparr>loadCheckins := Inr []\<rparr>) = Inr ex_messages
   \<and> loadUsers (ex_files\<lparr>loadCheckins := Inr []\<rparr>) = Inr ex_users
   \<and> loadPairings (ex_files\<lparr>loadCheckins := Inr []\<rparr>) = Inr ex_pairings
   \<and> opt_mode summary_options \<noteq> Some ''list''
   \<and> run (ex_files\<lparr>loadCheckins := Inr []\<rparr>) ex_now summary_options
        = SummaryResult 0 0 ''balanced'' 0"
proof -
  have l: "loadCheckins (ex_files\<lparr>loadCheckins := Inr []\<rparr>) = Inr []"
    "loadMessages (ex_files\<lparr>loadCheckins := Inr []\<rparr>) = Inr ex_messages"
    "loadUsers (ex_files\<lparr>loadCheckins := Inr []\<rparr>) = Inr ex_users"
    "loadPairings (ex_files\<lparr>loadCheckins := Inr []\<rparr>) = Inr ex_pairings"
    "opt_mode summary_options \<noteq> Some ''list''"
    by (simp_all add: ex_files_def summary_options_def)
  from summary_of_empty_checkins[OF l, of ex_now] l show ?thesis by blast
qed

subsection \<open>Nudge composer\<close>

lemma match_here_iff:
  "prefix checkin_key s \<and> takeWhile is_digit (drop (length checkin_key) s) \<noteq> [] \<longleftrightarrow>
     (\<exists>ds post. s = checkin_key @ ds @ post \<and> ds \<noteq> [] \<and> (\<forall>c \<in> set ds. is_digit c))"
proof
  assume a: "prefix checkin_key s \<and> takeWhile is_digit (drop (length checkin_key) s) \<noteq> []"
  let ?r = "drop (length checkin_key) s"
  from a have "s = checkin_key @ ?r" by (auto simp: prefix_def)
  then have "s = checkin_key @ takeWhile is_digit ?r @ dropWhile is_digit ?r" by simp
  moreover have "\<forall>c \<in> set (takeWhile is_digit ?r). is_digit c"
    by (auto dest: set_takeWhileD)
  ultimately show "\<exists>ds post. s = checkin_key @ ds @ post \<and> ds \<noteq> [] \<and> (\<forall>c \<in> set ds. is_digit c)"
    using a by blast
next
  assume "\<exists>ds post. s = checkin_key @ ds @ post \<and> ds \<noteq> [] \<and> (\<forall>c \<in> set ds. is_digit c)"
  then obtain ds post where s: "s = checkin_key @ ds @ post" and ne: "ds \<noteq> []"
    and d: "\<forall>c \<in> set ds. is_digit c" by blast
  from ne d have "takeWhile is_digit (ds @ post) \<noteq> []" by (cases ds) auto
  with s show "prefix checkin_key s \<and> takeWhile is_digit (drop (length checkin_key) s) \<noteq> []"
    by simp
qed

lemma match_last_checkin_days_None_iff:
  "match_last_checkin_days s = None \<longleftrightarrow>
     \<not> (\<exists>pre ds post. s = pre @ checkin_key @ ds @ post \<and> ds \<noteq> []
            \<and> (\<forall>c \<in> set ds. is_digit c))"
proof (induction s)
  case Nil
  show ?case by (simp add: checkin_key_def)
next
  case (Cons c cs)
  let ?here = "\<exists>ds post. c # cs = checkin_key @ ds @ post \<and> ds \<noteq> [] \<and> (\<forall>c \<in> set ds. is_digit c)"
  let ?later = "\<exists>pre ds post. cs = pre @ checkin_key @ ds @ post \<and> ds \<noteq> []
            \<and> (\<forall>c \<in> set ds. is_digit c)"
  have split: "(\<exists>pre ds post. c # cs = pre @ checkin_key @ ds @ post \<and> ds \<noteq> []
            \<and> (\<forall>c \<in> set ds. is_digit c)) \<longleftrightarrow> ?here \<or> ?later"
  proof
    assume "\<exists>pre ds post. c # cs = pre @ checkin_key @ ds @ post \<and> ds \<noteq> []
            \<and> (\<forall>c \<in> set ds. is_digit c)"
    then obtain pre ds post where h: "c # cs = pre @ checkin_key @ ds @ post" "ds \<noteq> []"
      "\<forall>c \<in> set ds. is_digit c" by blast
    show "?here \<or> ?later"
    proof (cases pre)
      case Nil
      with h show ?thesis by auto
    next
      case (Cons d pre')
      with h have "cs = pre' @ checkin_key @ ds @ post" by simp
      with h(2,3) show ?thesis by blast
    qed
  next
    assume "?here \<or> ?later"
    then show "\<exists>pre ds post. c # cs = pre @ checkin_key @ ds @ post \<and> ds \<noteq> []
            \<and> (\<forall>c \<in> set ds. is_digit c)"
    proof
      assume ?here
      then obtain ds post where "c # cs = [] @ checkin_key @ ds @ post" "ds \<noteq> []"
        "\<forall>c \<in> set ds. is_digit c" by auto
      then show ?thesis by blast
    next
      assume ?later
      then obtain pre ds post where "c # cs = (c # pre) @ checkin_key @ ds @ post" "ds \<noteq> []"
        "\<forall>c \<in> set ds. is_digit c" by auto
      then show ?thesis by blast
    qed
  qed
  have "match_last_checkin_days (c # cs) = None \<longleftrightarrow>
      \<not> (prefix checkin_key (c # cs)
           \<and> takeWhile is_digit (drop (length checkin_key) (c # cs)) \<noteq> [])
      \<and> match_last_checkin_days cs = None"
    by simp
  also have "\<dots> \<longleftrightarrow> \<not> ?here \<and> \<not> ?later"
    unfolding match_here_iff Cons.IH ..
  finally show ?case unfolding split by blast
qed

lemma lastCheckinDays_default:
  assumes "\<not> (\<exists>pre ds post. s = pre @ ''last_checkin_days='' @ ds @ post \<and> ds \<noteq> []
            \<and> (\<forall>c \<in> set ds. is_digit c))"
  shows "lastCheckinDays_of s = Number 14"
proof -
  from assms have "match_last_checkin_days s = None"
    unfolding match_last_checkin_days_None_iff checkin_key_def .
  then show ?thesis by (simp add: lastCheckinDays_of_def)
qed

lemma number_to_string_14: "number_to_string (Number 14) = ''14''"
  by code_simp

lemma number_gt_14: "number_gt (Number 14) c \<longleftrightarrow> 14 > c"
  by (simp add: number_gt_def)

text \<open>
  C9. When the engagement data holds no occurrence of \<^verbatim>\<open>last_checkin_days=\<close> followed by a
  decimal digit, the composer takes 14 as the days since the last check-in: with the three
  files loaded and the pairing, its mentee, its mentor and its programme resolved, the
  message it returns is the overdue one, reporting 14 days, exactly when
  \<open>14 > cadence_days\<close> of the programme, and the staying-connected one otherwise. The tip is
  the trimmed capture of the tip pattern or the stock advice, and the question the one at the
  random index.
\<close>

theorem compose_defaults_to_14_days:
  assumes "\<not> (\<exists>pre ds post. engagementData = pre @ ''last_checkin_days='' @ ds @ post
                 \<and> ds \<noteq> [] \<and> (\<forall>c \<in> set ds. c \<in> set ''0123456789''))"
    and "loadUsers files = Inr users" and "loadPairings files = Inr pairings"
    and "loadProgrammes files = Inr programmes"
    and "select_pair pairings rnd1 pairId = Some targetPair"
    and "find (\<lambda>u. user_id u = mentee_id targetPair) users = Some mentee"
    and "find (\<lambda>u. user_id u = mentor_id targetPair) users = Some mentor"
    and "find (\<lambda>p. prog_programme_id p = programme_id targetPair) programmes = Some programme"
    and "tipText = (case match_tip tips of Some m \<Rightarrow> trim m
                    | None \<Rightarrow> ''Stay connected with your mentor'')"
    and "question = (case nth_opt suggestedQuestions (random_index rnd2 4) of
                       Some q \<Rightarrow> q | None \<Rightarrow> ''undefined'')"
  shows "lastCheckinDays_of engagementData = Number 14
    \<and> compose files rnd1 rnd2 engagementData tips pairId =
        Inr (''To: '' @ first_name mentee @ [CHR 0x0A]
             @ ''Subject: Checking in on your '' @ prog_name programme @ '' progress'' @ [CHR 0x0A]
             @ ''Body: ''
             @ (if 14 > cadence_days programme
                then ''Hi '' @ first_name mentee
                     @ '', noticed it has been 14 days since your last check-in. '' @ tipText
                     @ '' Here's a gentle prompt you can use with '' @ first_name mentor
                     @ '': \"'' @ question @ ''\"''
                else ''Hi '' @ first_name mentee
                     @ '', great to see you're staying connected! Here's a conversation starter for your next session with ''
                     @ first_name mentor @ '': \"'' @ question @ ''\"''))"
proof -
  from assms(1) have nm: "\<not> (\<exists>pre ds post. engagementData = pre @ ''last_checkin_days='' @ ds @ post
                 \<and> ds \<noteq> [] \<and> (\<forall>c \<in> set ds. is_digit c))"
    by (simp add: is_digit_def)
  have len: "length suggestedQuestions = 4" by (simp add: suggestedQuestions_def)
  from assms(2-) lastCheckinDays_default[OF nm] show ?thesis
    by (simp add: compose_def compose_for_def Let_def len number_to_string_14 number_gt_14
          overdue_body_def connected_body_def nudge_text_def)
qed

theorem compose_defaults_to_14_days_witness:
  "lastCheckinDays_of ''sample=3 dormant=1 balance=balanced'' = Number 14
   \<and> compose ex_files 0 0 ''sample=3 dormant=1 balance=balanced'' ''No relevant tips found''
         (Some ''p001'') =
       Inr (''To: Priya'' @ [CHR 0x0A]
            @ ''Subject: Checking in on your Career Launch progress'' @ [CHR 0x0A]
            @ ''Body: Hi Priya, noticed it has been 14 days since your last check-in. ''
            @ ''Stay connected with your mentor Here's a gentle prompt you can use with Sarah: ''
            @ ''\"What's one win from this week you'd like to share?\"'')
   \<and> compose ex_files 0 (3 / 4) ''sample=3 dormant=1 balance=balanced''
         ''1) Send a short, friendly note  | tags: dormant'' (Some ''p001'') =
       Inr (''To: Priya'' @ [CHR 0x0A]
            @ ''Subject: Checking in on your Career Launch progress'' @ [CHR 0x0A]
            @ ''Body: Hi Priya, noticed it has been 14 days since your last check-in. ''
            @ ''Send a short, friendly note Here's a gentle prompt you can use with Sarah: ''
            @ ''\"What's one thing you'd like feedback on?\"'')
   \<and> compose ex_files 0 0 ''sample=3 dormant=1 balance=balanced'' ''No relevant tips found''
         (Some ''p002'') =
       Inr (''To: Liam'' @ [CHR 0x0A]
            @ ''Subject: Checking in on your Leadership progress'' @ [CHR 0x0A]
            @ ''Body: Hi Liam, great to see you're staying connected! Here's a conversation ''
            @ ''starter for your next session with Noor: ''
            @ ''\"What's one win from this week you'd like to share?\"'')"
proof -
  let ?ed = "''sample=3 dormant=1 balance=balanced''"
  have "match_last_checkin_days ?ed = None" by code_simp
  then have "\<not> (\<exists>pre ds post. ?ed = pre @ ''last_checkin_days='' @ ds @ post
                 \<and> ds \<noteq> [] \<and> (\<forall>c \<in> set ds. is_digit c))"
    unfolding match_last_checkin_days_None_iff checkin_key_def .
  then have nm: "\<not> (\<exists>pre ds post. ?ed = pre @ ''last_checkin_days='' @ ds @ post
                 \<and> ds \<noteq> [] \<and> (\<forall>c \<in> set ds. c \<in> set ''0123456789''))"
    unfolding is_digit_def .
  have l: "loadUsers ex_files = Inr ex_users" "loadPairings ex_files = Inr ex_pairings"
    "loadProgrammes ex_files = Inr ex_programmes"
    by (simp_all add: ex_files_def)
  have s1: "select_pair ex_pairings 0 (Some ''p001'') = Some (ex_pairing ''p001'' ''m001'' ''u001'' ''prog001'')"
    and s2: "select_pair ex_pairings 0 (Some ''p002'') = Some (ex_pairing ''p002'' ''m002'' ''u002'' ''prog002'')"
    by (simp_all add: select_pair_def ex_pairings_def ex_pairing_def)
  have u1: "find (\<lambda>u. user_id u = mentee_id (ex_pairing ''p001'' ''m001'' ''u001'' ''prog001'')) ex_users
              = Some (ex_user ''u001'' ''mentee'' ''Priya'')"
    "find (\<lambda>u. user_id u = mentor_id (ex_pairing ''p001'' ''m001'' ''u001'' ''prog001'')) ex_users
              = Some (ex_user ''m001'' ''mentor'' ''Sarah'')"
    "find (\<lambda>p. prog_programme_id p = programme_id (ex_pairing ''p001'' ''m001'' ''u001'' ''prog001''))
        ex_programmes = Some (ex_programme ''prog001'' ''Career Launch'' 7)"
    by (simp_all add: ex_users_def ex_user_def ex_pairing_def ex_programmes_def ex_programme_def)
  have u2: "find (\<lambda>u. user_id u = mentee_id (ex_pairing ''p002'' ''m002'' ''u002'' ''prog002'')) ex_users
              = Some (ex_user ''u002'' ''mentee'' ''Liam'')"
    "find (\<lambda>u. user_id u = mentor_id (ex_pairing ''p002'' ''m002'' ''u002'' ''prog002'')) ex_users
              = Some (ex_user ''m002'' ''mentor'' ''Noor'')"
    "find (\<lambda>p. prog_programme_id p = programme_id (ex_pairing ''p002'' ''m002'' ''u002'' ''prog002''))
        ex_programmes = Some (ex_programme ''prog002'' ''Leadership'' 30)"
    by (simp_all add: ex_users_def ex_user_def ex_pairing_def ex_programmes_def ex_programme_def)
  have t0: "(case match_tip ''No relevant tips found'' of Some m \<Rightarrow> trim m
             | None \<Rightarrow> ''Stay connected with your mentor'') = ''Stay connected with your mentor''"
    by code_simp
  have t1: "(case match_tip ''1) Send a short, friendly note  | tags: dormant'' of Some m \<Rightarrow> trim m
             | None \<Rightarrow> ''Stay connected with your mentor'') = ''Send a short, friendly note''"
    by code_simp
  have q0: "(case nth_opt suggestedQuestions (random_index 0 4) of Some q \<Rightarrow> q
             | None \<Rightarrow> ''undefined'') = ''What's one win from this week you'd like to share?''"
    by code_simp
  have q3: "(case nth_opt suggestedQuestions (random_index (3 / 4) 4) of Some q \<Rightarrow> q
             | None \<Rightarrow> ''undefined'') = ''What's one thing you'd like feedback on?''"
    by code_simp
  from compose_defaults_to_14_days[OF nm l s1 u1 t0[symmetric] q0[symmetric]]
       compose_defaults_to_14_days[OF nm l s1 u1 t1[symmetric] q3[symmetric]]
       compose_defaults_to_14_days[OF nm l s2 u2 t0[symmetric] q0[symmetric]]
  show ?thesis by (simp add: ex_user_def ex_programme_def)
qed




subsection \<open>Orchestrator\<close>

lemma compose_unresolved:
  assumes "loadUsers files = Inr users" and "loadPairings files = Inr pairings"
    and "loadProgrammes files = Inr programmes"
    and "p \<noteq> []" and "find (\<lambda>x. pair_id x = p) pairings = None"
  shows "compose files rnd1 rnd2 engagementData tips (Some p) = Inr ''Error: No pairing found''"
  using assms by (simp add: compose_def select_pair_def Let_def)

lemma ex_compose_p999:
  "compose ex_files rnd1 rnd2 engagementData tips (Some ''p999'') = Inr ''Error: No pairing found''"
proof (rule compose_unresolved)
  show "loadUsers ex_files = Inr ex_users" "loadPairings ex_files = Inr ex_pairings"
    "loadProgrammes ex_files = Inr ex_programmes"
    by (simp_all add: ex_files_def)
  show "''p999'' \<noteq> []" by simp
  show "find (\<lambda>x. pair_id x = ''p999'') ex_pairings = None"
    by (simp add: ex_pairings_def ex_pairing_def)
qed

lemma ex_retrieve_two_hits:
  "\<exists>h1 h2. retrieve ex_files q = TipsResult [h1, h2]"
proof -
  let ?hs = "map (\<lambda>r. the (to_hit ex_tips r)) (findSimilar q (map tip_document ex_tips) 2)"
  have "loadTips ex_files = Inr ex_tips" by (simp add: ex_files_def)
  then have r: "retrieve ex_files q = TipsResult ?hs" by (rule retrieve_loaded)
  have "length ?hs = 2" by (simp add: length_findSimilar_2 ex_tips_def)
  then have "\<exists>h1 h2. ?hs = [h1, h2]"
    by (auto simp: length_Suc_conv numeral_2_eq_2)
  with r show ?thesis by auto
qed

text \<open>
  C1. The claim does not hold of the code. In the \<^verbatim>\<open>compose_nudge\<close> branch the reflection
  is the constant "looks ok": with a pair id that does not resolve, the observation is the
  sentinel \<^verbatim>\<open>Error: No pairing found\<close> and the reflection is still "looks ok". The same
  happens on the chained \<^verbatim>\<open>mentor_tips\<close> path, where the sentinel becomes the body of the
  nudge, and for a \<^verbatim>\<open>RESPOND:Error: ...\<close> decision, which is how the brain reports its own
  failures.
\<close>

theorem compose_nudge_error_sentinel_looks_ok:
  "observation (agent_loop ex_files ex_now (1 / 2) 0
       \<lparr>action = ''USE:compose_nudge'', mode = None, prompt = None\<rparr>
       ''compose a nudge'' (Some 5) False (Some ''p999''))
     = ObsString ''Error: No pairing found''
   \<and> reflection (agent_loop ex_files ex_now (1 / 2) 0
       \<lparr>action = ''USE:compose_nudge'', mode = None, prompt = None\<rparr>
       ''compose a nudge'' (Some 5) False (Some ''p999''))
     = ''looks ok''
   \<and> observation (agent_loop ex_files ex_now (1 / 2) 0 (decide ''tips for dormant mentees'')
       ''tips for dormant mentees'' (Some 5) True (Some ''p999''))
     = ObsTipsNudge (retrieve ex_files ''tips for dormant mentees'')
         \<lparr>subject = ''Mentorship update'', body = ''Error: No pairing found''\<rparr>
   \<and> reflection (agent_loop ex_files ex_now (1 / 2) 0 (decide ''tips for dormant mentees'')
       ''tips for dormant mentees'' (Some 5) True (Some ''p999''))
     = ''looks ok''
   \<and> observation (agent_loop ex_files ex_now (1 / 2) 0
       \<lparr>action = ''RESPOND:Error: OpenAI API key is required'', mode = None, prompt = None\<rparr>
       ''hello'' (Some 5) False None)
     = ObsString ''Error: OpenAI API key is required''
   \<and> reflection (agent_loop ex_files ex_now (1 / 2) 0
       \<lparr>action = ''RESPOND:Error: OpenAI API key is required'', mode = None, prompt = None\<rparr>
       ''hello'' (Some 5) False None)
     = ''looks ok''"
proof -
  have s: "startsWith ''USE:compose_nudge'' ''USE:''" "startsWith ''USE:mentor_tips'' ''USE:''"
    "\<not> startsWith ''RESPOND:Error: OpenAI API key is required'' ''USE:''"
    "startsWith ''RESPOND:Error: OpenAI API key is required'' ''RESPOND:''"
    by (simp_all add: startsWith_def)
  have p: "split_char CHR '':'' ''compose_nudge'' = [''compose_nudge'']"
    "split_char CHR '':'' ''mentor_tips'' = [''mentor_tips'']"
    by (simp_all add: split_char_def)
  have d: "decide ''tips for dormant mentees''
             = \<lparr>action = ''USE:mentor_tips'', mode = None, prompt = None\<rparr>"
    by code_simp
  have n: "nudge_of_text ''Error: No pairing found''
             = \<lparr>subject = ''Mentorship update'', body = ''Error: No pairing found''\<rparr>"
    by (simp add: nudge_of_text_def split_char_def startsWith_def Let_def)
  obtain h1 h2 where r: "retrieve ex_files ''tips for dormant mentees'' = TipsResult [h1, h2]"
    using ex_retrieve_two_hits by blast
  have a: "agent_loop ex_files ex_now (1 / 2) 0
       \<lparr>action = ''USE:compose_nudge'', mode = None, prompt = None\<rparr>
       ''compose a nudge'' (Some 5) False (Some ''p999'')
     = \<lparr>thought = ''Processing: \"compose a nudge\"'', result_action = ''USE:compose_nudge'',
        observation = ObsString ''Error: No pairing found'', reflection = ''looks ok''\<rparr>"
    by (simp add: agent_loop_def Let_def s p nth_opt_def ex_compose_p999)
  have b: "agent_loop ex_files ex_now (1 / 2) 0 (decide ''tips for dormant mentees'')
       ''tips for dormant mentees'' (Some 5) True (Some ''p999'')
     = \<lparr>thought = ''Processing: \"tips for dormant mentees\"'', result_action = ''USE:mentor_tips'',
        observation = ObsTipsNudge (retrieve ex_files ''tips for dormant mentees'')
          \<lparr>subject = ''Mentorship update'', body = ''Error: No pairing found''\<rparr>,
        reflection = ''looks ok''\<rparr>"
    unfolding d
    by (simp add: agent_loop_def Let_def s p nth_opt_def ex_compose_p999 r n
        reflection_of_type_def is_tips_error_def)
  have c: "agent_loop ex_files ex_now (1 / 2) 0
       \<lparr>action = ''RESPOND:Error: OpenAI API key is required'', mode = None, prompt = None\<rparr>
       ''hello'' (Some 5) False None
     = \<lparr>thought = ''Processing: \"hello\"'',
        result_action = ''RESPOND:Error: OpenAI API key is required'',
        observation = ObsString ''Error: OpenAI API key is required'', reflection = ''looks ok''\<rparr>"
    by (simp add: agent_loop_def Let_def s)
  show ?thesis unfolding a b c by simp
qed

end
